theory Spec2Isabelle
  imports Main "HOL-Library.Word"
begin

unbundle bit_operations_syntax

section \<open>The mDNS codec of nativeMdnsDiscovery.js and testing1.js\<close>

text \<open>
  The two files hold the same codec: \<^verbatim>\<open>buildQuery\<close>, \<^verbatim>\<open>readName\<close>,
  \<^verbatim>\<open>parseRecord\<close> and \<^verbatim>\<open>parseDNSMessage\<close>. They differ in the module constant
  that names the service and in comments only. The functions are embedded as HOL
  functions over byte lists.

  \<^item> A Node \<^verbatim>\<open>Buffer\<close> is a list of bytes (\<open>8 word\<close>).
  \<^item> A JavaScript string is a list of UTF-16 code units (\<open>16 word\<close>); \<^verbatim>\<open>.length\<close>
    counts code units.
  \<^item> JavaScript numbers that hold offsets, lengths and field values are naturals: they are
    never negative and stay far below \<open>2 ^ 53\<close>.
  \<^item> An exception is a value: the only exception the codec can raise is the
    \<^verbatim>\<open>RangeError\<close> of a \<^verbatim>\<open>Buffer\<close> read or write outside the buffer or with a
    value outside the field.
  \<^item> The loop of \<^verbatim>\<open>readName\<close> is \<^verbatim>\<open>while (true)\<close>; it is a partial function in the
    option monad, and \<open>None\<close> means that the call does not return.
\<close>

type_synonym byte = "8 word"
type_synonym buffer = "byte list"
type_synonym jsstring = "16 word list"

datatype error = RangeError

text \<open>Sequencing of computations that may throw, and of computations that may also not return.\<close>

definition bindE :: "error + 'a \<Rightarrow> ('a \<Rightarrow> error + 'b) \<Rightarrow> error + 'b" where
  "bindE m f = (case m of Inl e \<Rightarrow> Inl e | Inr x \<Rightarrow> f x)"

definition bindC :: "(error + 'a) option \<Rightarrow> ('a \<Rightarrow> (error + 'b) option) \<Rightarrow> (error + 'b) option" where
  "bindC m f = (case m of None \<Rightarrow> None | Some (Inl e) \<Rightarrow> Some (Inl e) | Some (Inr x) \<Rightarrow> f x)"

subsection \<open>JavaScript strings\<close>

text \<open>An ASCII literal of the source as a JavaScript string.\<close>

definition js :: "string \<Rightarrow> jsstring" where
  "js s = map (\<lambda>c. of_nat (of_char c)) s"

text \<open>
  \<^verbatim>\<open>s.split(sep)\<close> for a separator of one code unit: the parts between the separators,
  the part being read carried along.
\<close>

fun split_from :: "16 word \<Rightarrow> jsstring \<Rightarrow> jsstring \<Rightarrow> jsstring list" where
  "split_from sep part [] = [part]"
| "split_from sep part (c # cs) =
     (if c = sep then part # split_from sep [] cs else split_from sep (part @ [c]) cs)"

definition split_str :: "16 word \<Rightarrow> jsstring \<Rightarrow> jsstring list" where
  "split_str sep s = split_from sep [] s"

text \<open>\<^verbatim>\<open>parts.join(sep)\<close> on an array of strings.\<close>

fun join_str :: "16 word \<Rightarrow> jsstring list \<Rightarrow> jsstring" where
  "join_str sep [] = []"
| "join_str sep [p] = p"
| "join_str sep (p # q # ps) = p @ sep # join_str sep (q # ps)"

text \<open>\<^verbatim>\<open>s.indexOf(c)\<close>: the index of the first occurrence, or \<open>-1\<close>.\<close>

definition indexOf :: "jsstring \<Rightarrow> 16 word \<Rightarrow> int" where
  "indexOf s c = (if c \<in> set s then int (length (takeWhile (\<lambda>x. x \<noteq> c) s)) else - 1)"

text \<open>\<^verbatim>\<open>String(n)\<close> for a non-negative integer: its decimal digits.\<close>

fun decimal :: "nat \<Rightarrow> jsstring" where
  "decimal n =
     (if n < 10 then [of_nat (48 + n)] else decimal (n div 10) @ [of_nat (48 + n mod 10)])"

declare decimal.simps [simp del]

text \<open>The full stop and the equals sign.\<close>

definition dot :: "16 word" where
  "dot = 0x2E"

definition equals_sign :: "16 word" where
  "equals_sign = 0x3D"

subsection \<open>UTF-8, as Node's \<^verbatim>\<open>Buffer\<close> converts it\<close>

text \<open>
  \<^verbatim>\<open>Buffer.from(s)\<close> encodes the code points of \<open>s\<close>: a surrogate pair is one code
  point of four bytes, a lone surrogate is written as U+FFFD (\<open>EF BF BD\<close>).
\<close>

definition utf8_of_code_point :: "nat \<Rightarrow> byte list" where
  "utf8_of_code_point u =
     (if u < 0x80 then [of_nat u]
      else if u < 0x800 then [of_nat (0xC0 + u div 64), of_nat (0x80 + u mod 64)]
      else if u < 0x10000 then
        [of_nat (0xE0 + u div 4096), of_nat (0x80 + u div 64 mod 64), of_nat (0x80 + u mod 64)]
      else
        [of_nat (0xF0 + u div 262144), of_nat (0x80 + u div 4096 mod 64),
         of_nat (0x80 + u div 64 mod 64), of_nat (0x80 + u mod 64)])"

definition is_high_surrogate :: "16 word \<Rightarrow> bool" where
  "is_high_surrogate c = (0xD800 \<le> unat c \<and> unat c < 0xDC00)"

definition is_low_surrogate :: "16 word \<Rightarrow> bool" where
  "is_low_surrogate c = (0xDC00 \<le> unat c \<and> unat c < 0xE000)"

fun utf8_encode :: "jsstring \<Rightarrow> byte list" where
  "utf8_encode [] = []"
| "utf8_encode [c] =
     (if is_high_surrogate c \<or> is_low_surrogate c then [0xEF, 0xBF, 0xBD]
      else utf8_of_code_point (unat c))"
| "utf8_encode (c # d # cs) =
     (if is_high_surrogate c \<and> is_low_surrogate d then
        utf8_of_code_point (0x10000 + (unat c - 0xD800) * 1024 + (unat d - 0xDC00))
          @ utf8_encode cs
      else if is_high_surrogate c \<or> is_low_surrogate c then
        [0xEF, 0xBF, 0xBD] @ utf8_encode (d # cs)
      else utf8_of_code_point (unat c) @ utf8_encode (d # cs))"

text \<open>
  \<^verbatim>\<open>buffer.toString('utf8', ...)\<close> decodes as the WHATWG Encoding Standard does: the state is
  the code point so far, the number of continuation bytes still needed and the bounds of
  the next continuation byte; a byte that cannot continue a sequence ends it with U+FFFD
  and is decoded again as the start of a sequence; a sequence cut by the end of the input
  gives one U+FFFD. The result is a list of code points.
\<close>

function utf8_dec :: "nat \<Rightarrow> nat \<Rightarrow> nat \<Rightarrow> nat \<Rightarrow> byte list \<Rightarrow> nat list" where
  "utf8_dec cp needed lower upper [] = (if needed = 0 then [] else [0xFFFD])"
| "utf8_dec cp needed lower upper (b # bs) =
     (let v = unat b in
      if needed = 0 then
        (if v < 0x80 then v # utf8_dec 0 0 0x80 0xBF bs
         else if 0xC2 \<le> v \<and> v \<le> 0xDF then utf8_dec (v - 0xC0) 1 0x80 0xBF bs
         else if 0xE0 \<le> v \<and> v \<le> 0xEF then
           utf8_dec (v - 0xE0) 2 (if v = 0xE0 then 0xA0 else 0x80)
             (if v = 0xED then 0x9F else 0xBF) bs
         else if 0xF0 \<le> v \<and> v \<le> 0xF4 then
           utf8_dec (v - 0xF0) 3 (if v = 0xF0 then 0x90 else 0x80)
             (if v = 0xF4 then 0x8F else 0xBF) bs
         else 0xFFFD # utf8_dec 0 0 0x80 0xBF bs)
      else if v < lower \<or> upper < v then 0xFFFD # utf8_dec 0 0 0x80 0xBF (b # bs)
      else if needed = 1 then (cp * 64 + (v - 0x80)) # utf8_dec 0 0 0x80 0xBF bs
      else utf8_dec (cp * 64 + (v - 0x80)) (needed - 1) 0x80 0xBF bs)"
  by pat_completeness auto
termination
  by (relation "measure (\<lambda>(cp, needed, lower, upper, bs). 2 * length bs + (if needed = 0 then 0 else 1))")
     auto

text \<open>A code point as UTF-16 code units.\<close>

definition utf16_of_code_point :: "nat \<Rightarrow> jsstring" where
  "utf16_of_code_point u =
     (if u < 0x10000 then [of_nat u]
      else [of_nat (0xD800 + (u - 0x10000) div 1024), of_nat (0xDC00 + (u - 0x10000) mod 1024)])"

definition utf8_decode :: "byte list \<Rightarrow> jsstring" where
  "utf8_decode bs = concat (map utf16_of_code_point (utf8_dec 0 0 0x80 0xBF bs))"

subsection \<open>Buffer operations\<close>

text \<open>
  The reads throw \<^verbatim>\<open>RangeError\<close> outside the buffer. \<^verbatim>\<open>toString\<close> and \<^verbatim>\<open>slice\<close>
  do not: they clamp the end to the length of the buffer and give an empty result when the
  start is not before the end.
\<close>

definition readUInt8 :: "buffer \<Rightarrow> nat \<Rightarrow> error + nat" where
  "readUInt8 buffer offset =
     (if offset < length buffer then Inr (unat (buffer ! offset)) else Inl RangeError)"

definition readUInt16BE :: "buffer \<Rightarrow> nat \<Rightarrow> error + nat" where
  "readUInt16BE buffer offset =
     (if offset + 2 \<le> length buffer
      then Inr (unat (buffer ! offset) * 256 + unat (buffer ! (offset + 1)))
      else Inl RangeError)"

definition readUInt32BE :: "buffer \<Rightarrow> nat \<Rightarrow> error + nat" where
  "readUInt32BE buffer offset =
     (if offset + 4 \<le> length buffer
      then Inr (unat (buffer ! offset) * 16777216 + unat (buffer ! (offset + 1)) * 65536
                + unat (buffer ! (offset + 2)) * 256 + unat (buffer ! (offset + 3)))
      else Inl RangeError)"

definition slice :: "buffer \<Rightarrow> nat \<Rightarrow> nat \<Rightarrow> buffer" where
  "slice buffer start stop = drop start (take stop buffer)"

definition toString :: "buffer \<Rightarrow> nat \<Rightarrow> nat \<Rightarrow> jsstring" where
  "toString buffer start stop = utf8_decode (slice buffer start stop)"

definition alloc :: "nat \<Rightarrow> buffer" where
  "alloc n = replicate n 0"

definition writeUInt8 :: "buffer \<Rightarrow> nat \<Rightarrow> nat \<Rightarrow> error + buffer" where
  "writeUInt8 buffer val offset =
     (if val < 256 \<and> offset < length buffer then Inr (buffer[offset := of_nat val])
      else Inl RangeError)"

definition writeUInt16BE :: "buffer \<Rightarrow> nat \<Rightarrow> nat \<Rightarrow> error + buffer" where
  "writeUInt16BE buffer val offset =
     (if val < 65536 \<and> offset + 2 \<le> length buffer
      then Inr (buffer[offset := of_nat (val div 256), offset + 1 := of_nat (val mod 256)])
      else Inl RangeError)"

subsection \<open>buildQuery\<close>

text \<open>
  The loop over the parts of the name: an empty part is skipped, each other part is pushed
  as a one-byte buffer holding \<^verbatim>\<open>part.length\<close> and the buffer \<^verbatim>\<open>Buffer.from(part)\<close>.
\<close>

fun qname_loop :: "jsstring list \<Rightarrow> buffer list \<Rightarrow> error + buffer list" where
  "qname_loop [] qnameBufferArray = Inr qnameBufferArray"
| "qname_loop (part # qnameParts) qnameBufferArray =
     (if part = [] then qname_loop qnameParts qnameBufferArray
      else bindE (writeUInt8 (alloc 1) (length part) 0) (\<lambda>len.
             qname_loop qnameParts (qnameBufferArray @ [len, utf8_encode part])))"

text \<open>
  The body of \<^verbatim>\<open>buildQuery\<close>. The source function takes no argument: the name is the module
  constant (\<^verbatim>\<open>serviceQuery\<close> in nativeMdnsDiscovery.js, \<^verbatim>\<open>fullServiceQuery\<close> in
  testing1.js) and the question's type and class are the literals 12 and 1. Here the three are
  parameters, and \<open>buildQuery\<close> below instantiates them as each file does.
\<close>

definition buildQueryFor :: "jsstring \<Rightarrow> nat \<Rightarrow> nat \<Rightarrow> error + buffer" where
  "buildQueryFor serviceQuery qtype qclass =
     bindE (writeUInt16BE (alloc 12) 0 0) (\<lambda>h0.
     bindE (writeUInt16BE h0 0 2) (\<lambda>h1.
     bindE (writeUInt16BE h1 1 4) (\<lambda>h2.
     bindE (writeUInt16BE h2 0 6) (\<lambda>h3.
     bindE (writeUInt16BE h3 0 8) (\<lambda>h4.
     bindE (writeUInt16BE h4 0 10) (\<lambda>header.
     bindE (qname_loop (split_str dot serviceQuery) []) (\<lambda>qnameBufferArray.
     let qnameBuffer = concat (qnameBufferArray @ [[0]]) in
     bindE (writeUInt16BE (alloc 4) qtype 0) (\<lambda>q0.
     bindE (writeUInt16BE q0 qclass 2) (\<lambda>question.
     Inr (concat [header, qnameBuffer, question]))))))))))"

definition serviceQuery_native :: jsstring where
  "serviceQuery_native = js ''_smart_ip._tcp.local.''"

definition fullServiceQuery :: jsstring where
  "fullServiceQuery = js ''_smart_ip._tcp'' @ js ''.local''"

definition buildQuery_native :: "error + buffer" where
  "buildQuery_native = buildQueryFor serviceQuery_native 12 1"

definition buildQuery :: "error + buffer" where
  "buildQuery = buildQueryFor fullServiceQuery 12 1"

subsection \<open>readName\<close>

text \<open>
  The state of the loop is the four variables \<^verbatim>\<open>labels\<close>, \<^verbatim>\<open>jumped\<close>,
  \<^verbatim>\<open>originalOffset\<close> and \<^verbatim>\<open>offset\<close>; the loop returns them at its \<^verbatim>\<open>break\<close>.
\<close>

partial_function (option) readName_loop ::
  "buffer \<Rightarrow> jsstring list \<Rightarrow> bool \<Rightarrow> nat \<Rightarrow> nat
     \<Rightarrow> (error + (jsstring list \<times> bool \<times> nat \<times> nat)) option" where
  "readName_loop buffer labels jumped originalOffset offset =
     (case readUInt8 buffer offset of
        Inl e \<Rightarrow> Some (Inl e)
      | Inr len \<Rightarrow>
          if len = 0 then Some (Inr (labels, jumped, originalOffset, offset + 1))
          else if len AND 0xC0 = 0xC0 then
            (case readUInt8 buffer (offset + 1) of
               Inl e \<Rightarrow> Some (Inl e)
             | Inr b \<Rightarrow>
                 readName_loop buffer labels True
                   (if \<not> jumped then offset + 2 else originalOffset)
                   (push_bit 8 (len AND 0x3F) OR b))
          else
            readName_loop buffer
              (labels @ [toString buffer (offset + 1) (offset + 1 + len)])
              jumped originalOffset (offset + 1 + len))"

definition readName :: "buffer \<Rightarrow> nat \<Rightarrow> (error + (jsstring \<times> nat)) option" where
  "readName buffer offset =
     bindC (readName_loop buffer [] False offset offset)
       (\<lambda>(labels, jumped, originalOffset, offset').
          Some (Inr (join_str dot labels, if jumped then originalOffset else offset')))"

subsection \<open>parseRecord\<close>

text \<open>
  The value of a TXT property is a string or \<^verbatim>\<open>true\<close>. The rdata of a record is a name
  (PTR), an object of four fields (SRV), an object used as a dictionary (TXT), a dotted string
  (A) or a slice of the buffer (any other type).
\<close>

datatype txtval = TxtStr jsstring | TxtTrue

datatype rdata =
    PTR jsstring
  | SRV (srv_priority: nat) (srv_weight: nat) (srv_port: nat) (srv_target: jsstring)
  | TXT "jsstring \<rightharpoonup> txtval"
  | A jsstring
  | Raw buffer

record dnsrecord =
  r_name :: jsstring
  r_type :: nat
  r_cls :: nat
  r_ttl :: nat
  r_rdlength :: nat
  r_rdata :: rdata
  r_offset :: nat

text \<open>
  \<^verbatim>\<open>txts[key] = value\<close> on the plain object \<^verbatim>\<open>txts = {}\<close>, seen as the map of its own
  properties. The key \<^verbatim>\<open>__proto__\<close> is the accessor inherited from
  \<^verbatim>\<open>Object.prototype\<close>: its setter ignores a value that is neither an object nor
  \<^verbatim>\<open>null\<close>, so assigning a string or \<^verbatim>\<open>true\<close> creates no property.
\<close>

definition obj_set :: "(jsstring \<rightharpoonup> txtval) \<Rightarrow> jsstring \<Rightarrow> txtval \<Rightarrow> (jsstring \<rightharpoonup> txtval)" where
  "obj_set txts key val = (if key = js ''__proto__'' then txts else txts(key \<mapsto> val))"

text \<open>The body of the TXT loop: one sub-string \<^verbatim>\<open>txt\<close> stored into \<^verbatim>\<open>txts\<close>.\<close>

definition txt_store :: "(jsstring \<rightharpoonup> txtval) \<Rightarrow> jsstring \<Rightarrow> (jsstring \<rightharpoonup> txtval)" where
  "txt_store txts txt =
     (let equalIndex = indexOf txt equals_sign in
      if equalIndex \<noteq> - 1
      then obj_set txts (take (nat equalIndex) txt) (TxtStr (drop (nat equalIndex + 1) txt))
      else obj_set txts txt TxtTrue)"

text \<open>The TXT loop \<^verbatim>\<open>while (offset < end)\<close>; \<open>rdend\<close> is the source's \<^verbatim>\<open>end\<close>.\<close>

function txt_loop ::
  "buffer \<Rightarrow> nat \<Rightarrow> nat \<Rightarrow> (jsstring \<rightharpoonup> txtval) \<Rightarrow> error + ((jsstring \<rightharpoonup> txtval) \<times> nat)" where
  "txt_loop buffer rdend offset txts =
     (if offset < rdend then
        (case readUInt8 buffer offset of
           Inl e \<Rightarrow> Inl e
         | Inr txtLen \<Rightarrow>
             txt_loop buffer rdend (offset + 1 + txtLen)
               (txt_store txts (toString buffer (offset + 1) (offset + 1 + txtLen))))
      else Inr (txts, offset))"
  by pat_completeness auto
termination
  by (relation "measure (\<lambda>(buffer, rdend, offset, txts). rdend - offset)") auto

declare txt_loop.simps [simp del]

text \<open>The loop of the A record: \<^verbatim>\<open>for (let i = 0; i < rdlength; i++)\<close>.\<close>

function a_loop :: "buffer \<Rightarrow> nat \<Rightarrow> nat \<Rightarrow> nat \<Rightarrow> nat list \<Rightarrow> error + nat list" where
  "a_loop buffer offset rdlength i ipBytes =
     (if i < rdlength then
        (case readUInt8 buffer (offset + i) of
           Inl e \<Rightarrow> Inl e
         | Inr b \<Rightarrow> a_loop buffer offset rdlength (i + 1) (ipBytes @ [b]))
      else Inr ipBytes)"
  by pat_completeness auto
termination
  by (relation "measure (\<lambda>(buffer, offset, rdlength, i, ipBytes). rdlength - i)") auto

declare a_loop.simps [simp del]

definition parseRecord :: "buffer \<Rightarrow> nat \<Rightarrow> (error + dnsrecord) option" where
  "parseRecord buffer offset0 =
     bindC (readName buffer offset0) (\<lambda>(name, offset1).
     bindC (Some (readUInt16BE buffer offset1)) (\<lambda>rtype.
     bindC (Some (readUInt16BE buffer (offset1 + 2))) (\<lambda>cls.
     bindC (Some (readUInt32BE buffer (offset1 + 4))) (\<lambda>ttl.
     bindC (Some (readUInt16BE buffer (offset1 + 8))) (\<lambda>rdlength.
     let offset = offset1 + 10;
         result = (\<lambda>rdata offset'.
           Some (Inr \<lparr>r_name = name, r_type = rtype, r_cls = cls, r_ttl = ttl,
                       r_rdlength = rdlength, r_rdata = rdata, r_offset = offset'\<rparr>))
     in
     if rtype = 12 then
       bindC (readName buffer offset) (\<lambda>(nm, readBytes).
       result (PTR nm) (offset + rdlength))
     else if rtype = 33 then
       bindC (Some (readUInt16BE buffer offset)) (\<lambda>priority.
       bindC (Some (readUInt16BE buffer (offset + 2))) (\<lambda>weight.
       bindC (Some (readUInt16BE buffer (offset + 4))) (\<lambda>port.
       bindC (readName buffer (offset + 6)) (\<lambda>(target, readBytes).
       result (SRV priority weight port target) (offset + rdlength)))))
     else if rtype = 16 then
       bindC (Some (txt_loop buffer (offset + rdlength) offset Map.empty)) (\<lambda>(txts, offset').
       result (TXT txts) offset')
     else if rtype = 1 then
       bindC (Some (a_loop buffer offset rdlength 0 [])) (\<lambda>ipBytes.
       result (A (join_str dot (map decimal ipBytes))) (offset + rdlength))
     else
       result (Raw (slice buffer offset (offset + rdlength))) (offset + rdlength))))))"

subsection \<open>parseDNSMessage\<close>

record dnsheader =
  h_id :: nat
  h_flags :: nat
  h_qdcount :: nat
  h_ancount :: nat
  h_nscount :: nat
  h_arcount :: nat

text \<open>
  The two \<^verbatim>\<open>for\<close> loops, by recursion on the number of iterations left: the first skips
  the questions, the second collects the records.
\<close>

fun skip_questions :: "buffer \<Rightarrow> nat \<Rightarrow> nat \<Rightarrow> (error + nat) option" where
  "skip_questions buffer 0 offset = Some (Inr offset)"
| "skip_questions buffer (Suc n) offset =
     bindC (readName buffer offset) (\<lambda>(name, readBytes).
     skip_questions buffer n (readBytes + 4))"

fun parse_records ::
  "buffer \<Rightarrow> nat \<Rightarrow> nat \<Rightarrow> dnsrecord list \<Rightarrow> (error + dnsrecord list) option" where
  "parse_records buffer 0 offset records = Some (Inr records)"
| "parse_records buffer (Suc n) offset records =
     bindC (parseRecord buffer offset) (\<lambda>record.
     parse_records buffer n (r_offset record) (records @ [record]))"

definition parseDNSMessage :: "buffer \<Rightarrow> (error + (dnsheader \<times> dnsrecord list)) option" where
  "parseDNSMessage buffer =
     bindC (Some (readUInt16BE buffer 0)) (\<lambda>id.
     bindC (Some (readUInt16BE buffer 2)) (\<lambda>flags.
     bindC (Some (readUInt16BE buffer 4)) (\<lambda>qdcount.
     bindC (Some (readUInt16BE buffer 6)) (\<lambda>ancount.
     bindC (Some (readUInt16BE buffer 8)) (\<lambda>nscount.
     bindC (Some (readUInt16BE buffer 10)) (\<lambda>arcount.
     let header = \<lparr>h_id = id, h_flags = flags, h_qdcount = qdcount, h_ancount = ancount,
                     h_nscount = nscount, h_arcount = arcount\<rparr> in
     bindC (skip_questions buffer qdcount 12) (\<lambda>offset.
     bindC (parse_records buffer (ancount + nscount + arcount) offset []) (\<lambda>records.
     Some (Inr (header, records))))))))))"

section \<open>The wire format, in the words of the specification\<close>

text \<open>
  A compression pointer at \<open>offset\<close>: two bytes inside the buffer, the first with its top two
  bits set (a value of at least \<open>0xC0\<close>); the low 14 bits of the pair are the target.
\<close>

definition pointer_at :: "buffer \<Rightarrow> nat \<Rightarrow> nat \<Rightarrow> bool" where
  "pointer_at buffer offset target =
     (offset + 1 < length buffer \<and> 192 \<le> unat (buffer ! offset) \<and>
      target = 256 * (unat (buffer ! offset) - 192) + unat (buffer ! (offset + 1)))"

text \<open>
  The path of a name through the buffer: \<open>name_walk buffer offset ps e\<close> says that reading
  from \<open>offset\<close> meets compression pointers at the positions \<open>ps\<close>, in this order, and
  then the terminating zero byte, and that \<open>e\<close> is the position just after that zero byte.
\<close>

inductive name_walk :: "buffer \<Rightarrow> nat \<Rightarrow> nat list \<Rightarrow> nat \<Rightarrow> bool" for buffer where
  walk_end:
    "offset < length buffer \<Longrightarrow> buffer ! offset = 0 \<Longrightarrow>
     name_walk buffer offset [] (offset + 1)"
| walk_pointer:
    "offset + 1 < length buffer \<Longrightarrow> 192 \<le> unat (buffer ! offset) \<Longrightarrow>
     name_walk buffer
       (256 * (unat (buffer ! offset) - 192) + unat (buffer ! (offset + 1))) ps e \<Longrightarrow>
     name_walk buffer offset (offset # ps) e"
| walk_label:
    "offset < length buffer \<Longrightarrow> 0 < unat (buffer ! offset) \<Longrightarrow>
     unat (buffer ! offset) < 192 \<Longrightarrow>
     name_walk buffer (offset + 1 + unat (buffer ! offset)) ps e \<Longrightarrow>
     name_walk buffer offset ps e"

code_pred (modes: i \<Rightarrow> i \<Rightarrow> o \<Rightarrow> o \<Rightarrow> bool as walk_of) name_walk .

text \<open>
  A label of ASCII text on the wire: the length byte, then one byte for each character.
\<close>

definition label_bytes :: "jsstring \<Rightarrow> byte list" where
  "label_bytes p = of_nat (length p) # map ucast p"

text \<open>
  A plain label on the wire, for any bytes \<open>l\<close>: the length byte, then the bytes. A name of
  plain labels on the wire: its labels, one after the other, then a zero byte.
\<close>

definition wire_label :: "byte list \<Rightarrow> byte list" where
  "wire_label l = of_nat (length l) # l"

definition wire_name :: "byte list list \<Rightarrow> byte list" where
  "wire_name ls = concat (map wire_label ls) @ [0]"

text \<open>The big-endian fields at an offset inside the buffer.\<close>

definition be16 :: "buffer \<Rightarrow> nat \<Rightarrow> nat" where
  "be16 buffer offset = 256 * unat (buffer ! offset) + unat (buffer ! (offset + 1))"

definition be32 :: "buffer \<Rightarrow> nat \<Rightarrow> nat" where
  "be32 buffer offset =
     16777216 * unat (buffer ! offset) + 65536 * unat (buffer ! (offset + 1))
     + 256 * unat (buffer ! (offset + 2)) + unat (buffer ! (offset + 3))"

text \<open>
  The sub-strings of a TXT rdata: from \<open>offset\<close>, while the cursor is before \<open>rdend\<close>, a
  length byte and that many bytes of text.
\<close>

function txt_strings :: "buffer \<Rightarrow> nat \<Rightarrow> nat \<Rightarrow> jsstring list" where
  "txt_strings buffer rdend offset =
     (if offset < rdend \<and> offset < length buffer then
        toString buffer (offset + 1) (offset + 1 + unat (buffer ! offset))
          # txt_strings buffer rdend (offset + 1 + unat (buffer ! offset))
      else [])"
  by pat_completeness auto
termination
  by (relation "measure (\<lambda>(buffer, rdend, offset). rdend - offset)") auto

declare txt_strings.simps [simp del]

text \<open>
  Where the sub-strings of a TXT rdata lie: for each one, the position of its length byte and
  the position just after its last byte, that is the length byte's position plus 1 plus the
  length. A sub-string starts wherever the one before it ends, as long as that is before
  \<open>rdend\<close>.
\<close>

function txt_spans :: "buffer \<Rightarrow> nat \<Rightarrow> nat \<Rightarrow> (nat \<times> nat) list" where
  "txt_spans buffer rdend offset =
     (if offset < rdend \<and> offset < length buffer then
        (offset, offset + 1 + unat (buffer ! offset))
          # txt_spans buffer rdend (offset + 1 + unat (buffer ! offset))
      else [])"
  by pat_completeness auto
termination
  by (relation "measure (\<lambda>(buffer, rdend, offset). rdend - offset)") auto

declare txt_spans.simps [simp del]

text \<open>
  The end of the last sub-string of a TXT rdata that starts at \<open>offset\<close>; \<open>offset\<close> itself
  when there is no sub-string.
\<close>

definition txt_end :: "buffer \<Rightarrow> nat \<Rightarrow> nat \<Rightarrow> nat" where
  "txt_end buffer rdend offset = last (offset # map snd (txt_spans buffer rdend offset))"

text \<open>
  A sub-string split on its first \<open>=\<close>: the key is the text before it, the value the text
  after it; a sub-string with no \<open>=\<close> is a key whose value is \<^verbatim>\<open>true\<close>.
\<close>

definition txt_key :: "jsstring \<Rightarrow> jsstring" where
  "txt_key s = takeWhile (\<lambda>c. c \<noteq> equals_sign) s"

definition txt_value :: "jsstring \<Rightarrow> txtval" where
  "txt_value s =
     (if equals_sign \<in> set s then TxtStr (tl (dropWhile (\<lambda>c. c \<noteq> equals_sign) s))
      else TxtTrue)"

text \<open>The value that the last sub-string with key \<open>k\<close> gives, if there is one.\<close>

fun txt_last :: "jsstring list \<Rightarrow> jsstring \<Rightarrow> txtval option" where
  "txt_last [] k = None"
| "txt_last (s # ss) k =
     (case txt_last ss k of
        Some v \<Rightarrow> Some v
      | None \<Rightarrow> if txt_key s = k then Some (txt_value s) else None)"

text \<open>
  A record whose rdata is read to its last byte: an A record, or a PTR or SRV record whose
  name ends exactly where \<^verbatim>\<open>rdlength\<close> says the rdata ends.
\<close>

definition record_tight :: "buffer \<Rightarrow> dnsrecord \<Rightarrow> bool" where
  "record_tight buffer r =
     (case r_rdata r of
        A ip \<Rightarrow> True
      | PTR nm \<Rightarrow>
          readName buffer (r_offset r - r_rdlength r) = Some (Inr (nm, r_offset r))
      | SRV p w port tgt \<Rightarrow>
          readName buffer (r_offset r - r_rdlength r + 6) = Some (Inr (tgt, r_offset r))
      | TXT txts \<Rightarrow> False
      | Raw bytes \<Rightarrow> False)"

section \<open>Example buffers\<close>

text \<open>
  A name with two pointers: the label \<open>abc\<close> at offset 0, a pointer at 4 to 8, the label
  \<open>d\<close> at 8, a pointer at 10 to 13, and the zero byte at 13.
\<close>

definition name_two_pointers :: buffer where
  "name_two_pointers =
     [0x03, 0x61, 0x62, 0x63, 0xC0, 0x08, 0xFF, 0xFF, 0x01, 0x64, 0xC0, 0x0D, 0xFF, 0x00]"

text \<open>
  Two filler bytes, the name \<open>ab.cd\<close> as plain labels at offset 2 (seven bytes, up to
  offset 9), and at offset 9 a pointer to offset 2.
\<close>

definition name_then_pointer :: buffer where
  "name_then_pointer =
     [0xFF, 0xFF, 0x02, 0x61, 0x62, 0x02, 0x63, 0x64, 0x00, 0xC0, 0x02]"


text \<open>
  A query whose question name, at offset 12, is a pointer to offset 12.
\<close>

definition self_pointer_query :: buffer where
  "self_pointer_query =
     [0x00, 0x00, 0x00, 0x00, 0x00, 0x01, 0x00, 0x00, 0x00, 0x00, 0x00, 0x00,
      0xC0, 0x0C, 0x00, 0x0C, 0x00, 0x01]"

text \<open>
  Records at offset 0 of a buffer. Each starts with the root name (\<open>00\<close>), then the type
  (two bytes), the class 1, the TTL 120 and \<^verbatim>\<open>rdlength\<close> (two bytes); the rdata follows at
  offset 11.
\<close>

text \<open>A PTR record that declares 7 bytes of rdata and holds the 3-byte name \<open>a\<close>.\<close>

definition ptr_record :: buffer where
  "ptr_record =
     [0x00, 0x00, 0x0C, 0x00, 0x01, 0x00, 0x00, 0x00, 0x78, 0x00, 0x07,
      0x01, 0x61, 0x00, 0xFF, 0xFF, 0xFF, 0xFF]"

text \<open>
  An SRV record (type 33) that declares 12 bytes of rdata: priority 10, weight 20, port 8080,
  the 3-byte target name \<open>b\<close> at offset 17, which ends at 20, and 3 more bytes.
\<close>

definition srv_record :: buffer where
  "srv_record =
     [0x00, 0x00, 0x21, 0x00, 0x01, 0x00, 0x00, 0x00, 0x78, 0x00, 0x0C,
      0x00, 0x0A, 0x00, 0x14, 0x1F, 0x90, 0x01, 0x62, 0x00, 0xFF, 0xFF, 0xFF]"

text \<open>
  A TXT record with 3 bytes of rdata, \<open>01 61 04\<close>: the second sub-string declares 4 bytes
  and starts on the last byte of the rdata.
\<close>

definition txt_record_straddling :: buffer where
  "txt_record_straddling =
     [0x00, 0x00, 0x10, 0x00, 0x01, 0x00, 0x00, 0x00, 0x78, 0x00, 0x03,
      0x01, 0x61, 0x04, 0x62, 0x63]"

text \<open>A TXT record with 2 bytes of rdata whose one sub-string declares 5 bytes.\<close>

definition txt_record_overshoot :: buffer where
  "txt_record_overshoot =
     [0x00, 0x00, 0x10, 0x00, 0x01, 0x00, 0x00, 0x00, 0x78, 0x00, 0x02,
      0x05, 0x61, 0x62, 0x63, 0x64, 0x65]"

text \<open>A TXT record with the rdata \<open>07 76 65 72 3d 31 2e 30 04 66 6c 61 67\<close>.\<close>

definition txt_record_ver_flag :: buffer where
  "txt_record_ver_flag =
     [0x00, 0x00, 0x10, 0x00, 0x01, 0x00, 0x00, 0x00, 0x78, 0x00, 0x0D,
      0x07, 0x76, 0x65, 0x72, 0x3d, 0x31, 0x2e, 0x30, 0x04, 0x66, 0x6c, 0x61, 0x67]"

text \<open>A TXT record with the rdata \<open>06 76 65 72 3d 31 2e 30 04 66 6c 61 67\<close>.\<close>

definition txt_record_06 :: buffer where
  "txt_record_06 =
     [0x00, 0x00, 0x10, 0x00, 0x01, 0x00, 0x00, 0x00, 0x78, 0x00, 0x0D,
      0x06, 0x76, 0x65, 0x72, 0x3d, 0x31, 0x2e, 0x30, 0x04, 0x66, 0x6c, 0x61, 0x67]"

text \<open>A TXT record with the sub-strings \<open>k=1\<close> and \<open>k=2\<close>.\<close>

definition txt_record_duplicate :: buffer where
  "txt_record_duplicate =
     [0x00, 0x00, 0x10, 0x00, 0x01, 0x00, 0x00, 0x00, 0x78, 0x00, 0x08,
      0x03, 0x6b, 0x3d, 0x31, 0x03, 0x6b, 0x3d, 0x32]"

text \<open>A TXT record with the one sub-string \<open>__proto__=x\<close>.\<close>

definition txt_record_proto :: buffer where
  "txt_record_proto =
     [0x00, 0x00, 0x10, 0x00, 0x01, 0x00, 0x00, 0x00, 0x78, 0x00, 0x0C,
      0x0B, 0x5f, 0x5f, 0x70, 0x72, 0x6f, 0x74, 0x6f, 0x5f, 0x5f, 0x3d, 0x78]"

text \<open>
  Messages: a header with one answer and no question, then one record named \<open>a\<close> at
  offset 12, with class 1 and TTL 120.
\<close>

text \<open>The record is a TXT record with the one sub-string \<open>flag\<close>; 30 bytes.\<close>

definition txt_message :: buffer where
  "txt_message =
     [0x00, 0x00, 0x84, 0x00, 0x00, 0x00, 0x00, 0x01, 0x00, 0x00, 0x00, 0x00,
      0x01, 0x61, 0x00, 0x00, 0x10, 0x00, 0x01, 0x00, 0x00, 0x00, 0x78, 0x00, 0x05,
      0x04, 0x66, 0x6c, 0x61, 0x67]"

text \<open>The record is an A record with the address 192.168.1.20; 29 bytes.\<close>

definition a_message :: buffer where
  "a_message =
     [0x00, 0x00, 0x84, 0x00, 0x00, 0x00, 0x00, 0x01, 0x00, 0x00, 0x00, 0x00,
      0x01, 0x61, 0x00, 0x00, 0x01, 0x00, 0x01, 0x00, 0x00, 0x00, 0x78, 0x00, 0x04,
      0xC0, 0xA8, 0x01, 0x14]"

section \<open>Properties\<close>

subsection \<open>Evaluation on concrete buffers\<close>

lemma list_update_Cons_numeral: "(x # xs)[numeral n := v] = x # xs[pred_numeral n := v]"
  by (metis list_update_code(3) numeral_eq_Suc)

lemma replicate_numeral: "replicate (numeral n) x = x # replicate (pred_numeral n) x"
  by (metis replicate_Suc numeral_eq_Suc)

lemmas buffer_ops =
  readUInt8_def readUInt16BE_def readUInt32BE_def slice_def toString_def alloc_def
  writeUInt8_def writeUInt16BE_def list_update_Cons_numeral replicate_numeral

lemmas string_ops =
  js_def dot_def equals_sign_def split_str_def utf8_of_code_point_def is_high_surrogate_def
  is_low_surrogate_def utf16_of_code_point_def utf8_decode_def

subsection \<open>The bit operations of readName, as arithmetic\<close>

lemma and_63: "(n::nat) AND 63 = n mod 64"
proof -
  have "n AND mask 6 = take_bit 6 n" by (simp add: take_bit_eq_mask)
  then show ?thesis by (simp add: mask_eq_exp_minus_1 take_bit_eq_mod)
qed

lemma and_3: "(n::nat) AND 3 = n mod 4"
proof -
  have "n AND mask 2 = take_bit 2 n" by (simp add: take_bit_eq_mask)
  then show ?thesis by (simp add: mask_eq_exp_minus_1 take_bit_eq_mod)
qed

lemma and_push_bit: "(n::nat) AND push_bit k m = push_bit k (drop_bit k n AND m)"
  by (rule bit_eqI) (auto simp: bit_simps)

lemma and_192: "(n::nat) AND 192 = 64 * (n div 64 mod 4)"
  using and_push_bit [of n 6 3]
  by (simp add: push_bit_eq_mult drop_bit_eq_div and_3)

lemma is_pointer_iff: "n < 256 \<Longrightarrow> (n AND 192 = 192) = (192 \<le> (n::nat))"
  unfolding and_192 by auto

lemma push_or: "(l::nat) < 256 \<Longrightarrow> push_bit 8 h OR l = 256 * h + l"
proof -
  assume l: "l < 256"
  then have tl: "take_bit 8 l = l" by (simp add: take_bit_nat_eq_self_iff)
  have "push_bit k h AND take_bit k l = 0" for k
    by (rule bit_eqI) (auto simp: bit_simps)
  then have "push_bit 8 h AND take_bit 8 l = 0" .
  then have "push_bit 8 h + l = push_bit 8 h OR l"
    unfolding tl by (rule disjunctive_add_eq_or)
  then show ?thesis by (simp add: push_bit_eq_mult)
qed

lemma mod_64: "192 \<le> n \<Longrightarrow> n < 256 \<Longrightarrow> n mod 64 = n - (192::nat)"
proof -
  assume a: "192 \<le> n" "n < 256"
  define k where "k = n - 192"
  have n: "n = 64 * 3 + k" and k: "k < 64" using a by (simp_all add: k_def)
  have "n mod 64 = k mod 64" unfolding n by (rule mod_mult_self4)
  then show ?thesis using k by (simp add: k_def)
qed

lemma pointer_value:
  "192 \<le> n \<Longrightarrow> n < 256 \<Longrightarrow> l < 256 \<Longrightarrow>
   push_bit 8 (n AND 63) OR l = 256 * (n - 192) + (l::nat)"
  by (simp only: and_63 push_or mod_64)

lemma unat_byte_less: "unat (b :: byte) < 256"
  using unsigned_less [of b, where ?'a = nat] by simp

lemma unat_byte_of_nat: "n < 256 \<Longrightarrow> unat (of_nat n :: byte) = n"
  by (simp add: unat_of_nat)

subsection \<open>buildQuery: the bytes of the query\<close>

lemma header_bytes:
  "bindE (writeUInt16BE (alloc 12) 0 0) (\<lambda>h0.
     bindE (writeUInt16BE h0 0 2) (\<lambda>h1.
     bindE (writeUInt16BE h1 1 4) (\<lambda>h2.
     bindE (writeUInt16BE h2 0 6) (\<lambda>h3.
     bindE (writeUInt16BE h3 0 8) (\<lambda>h4.
     bindE (writeUInt16BE h4 0 10) f)))))
   = f [0, 0, 0, 0, 0, 1, 0, 0, 0, 0, 0, 0]"
  by (simp add: bindE_def buffer_ops)

lemma question_bytes:
  "qtype < 65536 \<Longrightarrow> qclass < 65536 \<Longrightarrow>
   bindE (writeUInt16BE (alloc 4) qtype 0) (\<lambda>q0. bindE (writeUInt16BE q0 qclass 2) f)
   = f [of_nat (qtype div 256), of_nat (qtype mod 256),
        of_nat (qclass div 256), of_nat (qclass mod 256)]"
  by (simp add: bindE_def buffer_ops)

lemma buildQueryFor_bytes:
  assumes "qtype < 65536" "qclass < 65536"
  shows "buildQueryFor serviceQuery qtype qclass =
     bindE (qname_loop (split_str dot serviceQuery) []) (\<lambda>qnameBufferArray.
       Inr ([0, 0, 0, 0, 0, 1, 0, 0, 0, 0, 0, 0] @ concat qnameBufferArray @ [0]
            @ [of_nat (qtype div 256), of_nat (qtype mod 256),
               of_nat (qclass div 256), of_nat (qclass mod 256)]))"
  unfolding buildQueryFor_def header_bytes Let_def question_bytes [OF assms]
  by simp

lemma split_fullServiceQuery:
  "split_str dot fullServiceQuery =
     [[0x5f, 0x73, 0x6d, 0x61, 0x72, 0x74, 0x5f, 0x69, 0x70], [0x5f, 0x74, 0x63, 0x70],
      [0x6c, 0x6f, 0x63, 0x61, 0x6c]]"
  by (simp add: split_str_def fullServiceQuery_def js_def dot_def)

lemma split_serviceQuery_native:
  "split_str dot serviceQuery_native =
     [[0x5f, 0x73, 0x6d, 0x61, 0x72, 0x74, 0x5f, 0x69, 0x70], [0x5f, 0x74, 0x63, 0x70],
      [0x6c, 0x6f, 0x63, 0x61, 0x6c], []]"
  by (simp add: split_str_def serviceQuery_native_def js_def dot_def)

lemma qname_loop_smart_ip:
  "qname_loop ([[0x5f, 0x73, 0x6d, 0x61, 0x72, 0x74, 0x5f, 0x69, 0x70], [0x5f, 0x74, 0x63, 0x70],
      [0x6c, 0x6f, 0x63, 0x61, 0x6c]] @ rest) [] =
   qname_loop rest [[9], [0x5f, 0x73, 0x6d, 0x61, 0x72, 0x74, 0x5f, 0x69, 0x70], [4],
        [0x5f, 0x74, 0x63, 0x70], [5], [0x6c, 0x6f, 0x63, 0x61, 0x6c]]"
  by (simp add: bindE_def writeUInt8_def alloc_def utf8_of_code_point_def
      is_high_surrogate_def is_low_surrogate_def)

lemma buildQuery_eval:
  "buildQuery = Inr
     [0x00, 0x00, 0x00, 0x00, 0x00, 0x01, 0x00, 0x00, 0x00, 0x00, 0x00, 0x00,
      0x09, 0x5f, 0x73, 0x6d, 0x61, 0x72, 0x74, 0x5f, 0x69, 0x70,
      0x04, 0x5f, 0x74, 0x63, 0x70,
      0x05, 0x6c, 0x6f, 0x63, 0x61, 0x6c,
      0x00,
      0x00, 0x0c, 0x00, 0x01]"
  unfolding buildQuery_def
  using qname_loop_smart_ip [of "[]"]
  by (simp add: buildQueryFor_bytes split_fullServiceQuery bindE_def)

lemma buildQuery_native_eval: "buildQuery_native = buildQuery"
  unfolding buildQuery_def buildQuery_native_def
  using qname_loop_smart_ip [of "[[]]"] qname_loop_smart_ip [of "[]"]
  by (simp add: buildQueryFor_bytes split_fullServiceQuery split_serviceQuery_native bindE_def)

text \<open>
  C4, as the source has it. \<^verbatim>\<open>buildQuery\<close> of either file returns the twelve header bytes
  \<open>00 00 00 00 00 01 00 00 00 00 00 00\<close>, the labels \<open>09 _smart_ip\<close>, \<open>04 _tcp\<close>,
  \<open>05 local\<close>, the terminator \<open>00\<close> and the tail \<open>00 0c 00 01\<close>. These are 38 bytes:
  12 + 10 + 5 + 6 + 1 + 4.
\<close>

theorem buildQuery_bytes:
  "buildQuery = Inr
     ([0x00, 0x00, 0x00, 0x00, 0x00, 0x01, 0x00, 0x00, 0x00, 0x00, 0x00, 0x00]
      @ [0x09, 0x5f, 0x73, 0x6d, 0x61, 0x72, 0x74, 0x5f, 0x69, 0x70]
      @ [0x04, 0x5f, 0x74, 0x63, 0x70]
      @ [0x05, 0x6c, 0x6f, 0x63, 0x61, 0x6c]
      @ [0x00]
      @ [0x00, 0x0c, 0x00, 0x01])
   \<and> buildQuery_native = buildQuery
   \<and> length (projr buildQuery) = 38"
  unfolding buildQuery_native_eval by (simp add: buildQuery_eval)

text \<open>
  C4, as the claim counts: the sequence that \<^verbatim>\<open>buildQuery\<close> returns is not 39 bytes long.
\<close>

theorem buildQuery_length_counterexample:
  "\<not> isl buildQuery \<and> length (projr buildQuery) \<noteq> 39"
  by (simp add: buildQuery_eval)

subsection \<open>readName: the loop, step by step\<close>

lemma pointer_value_pushed:
  "192 \<le> n \<Longrightarrow> n < 256 \<Longrightarrow> l < 256 \<Longrightarrow>
   push_bit 8 n AND 16128 OR l = 256 * (n - 192) + (l::nat)"
  using pointer_value [of n l] by (simp add: push_bit_and)

lemma readName_loop_unfold:
  "readName_loop buffer labels jumped originalOffset offset =
     (if length buffer \<le> offset then Some (Inl RangeError)
      else if buffer ! offset = 0
        then Some (Inr (labels, jumped, originalOffset, offset + 1))
      else if 192 \<le> unat (buffer ! offset) then
        (if length buffer \<le> offset + 1 then Some (Inl RangeError)
         else readName_loop buffer labels True
                (if jumped then originalOffset else offset + 2)
                (256 * (unat (buffer ! offset) - 192) + unat (buffer ! (offset + 1))))
      else readName_loop buffer
             (labels @ [toString buffer (offset + 1) (offset + 1 + unat (buffer ! offset))])
             jumped originalOffset (offset + 1 + unat (buffer ! offset)))"
  by (subst readName_loop.simps)
     (simp add: readUInt8_def is_pointer_iff pointer_value_pushed unat_byte_less unat_0_iff)

lemma readName_loop_induct [consumes 1, case_names outside zero cut pointer label]:
  assumes run: "readName_loop buffer labels jumped originalOffset offset = Some y"
    and outside: "\<And>labels jumped originalOffset offset.
       length buffer \<le> offset \<Longrightarrow> P labels jumped originalOffset offset (Inl RangeError)"
    and zero: "\<And>labels jumped originalOffset offset.
       offset < length buffer \<Longrightarrow> buffer ! offset = 0 \<Longrightarrow>
       P labels jumped originalOffset offset (Inr (labels, jumped, originalOffset, offset + 1))"
    and cut: "\<And>labels jumped originalOffset offset.
       offset < length buffer \<Longrightarrow> 192 \<le> unat (buffer ! offset) \<Longrightarrow>
       length buffer \<le> offset + 1 \<Longrightarrow>
       P labels jumped originalOffset offset (Inl RangeError)"
    and pointer: "\<And>labels jumped originalOffset offset target y.
       pointer_at buffer offset target \<Longrightarrow>
       readName_loop buffer labels True (if jumped then originalOffset else offset + 2) target
         = Some y \<Longrightarrow>
       P labels True (if jumped then originalOffset else offset + 2) target y \<Longrightarrow>
       P labels jumped originalOffset offset y"
    and label: "\<And>labels jumped originalOffset offset len y.
       offset < length buffer \<Longrightarrow> len = unat (buffer ! offset) \<Longrightarrow> 0 < len \<Longrightarrow>
       len < 192 \<Longrightarrow>
       readName_loop buffer (labels @ [toString buffer (offset + 1) (offset + 1 + len)])
         jumped originalOffset (offset + 1 + len) = Some y \<Longrightarrow>
       P (labels @ [toString buffer (offset + 1) (offset + 1 + len)])
         jumped originalOffset (offset + 1 + len) y \<Longrightarrow>
       P labels jumped originalOffset offset y"
  shows "P labels jumped originalOffset offset y"
proof -
  define Q where "Q = (\<lambda>buf ls j oo off z.
    buf = buffer \<longrightarrow> readName_loop buf ls j oo off = Some z \<and> P ls j oo off z)"
  have "Q buffer labels jumped originalOffset offset y"
  proof (rule readName_loop.raw_induct [where P = Q, OF _ run], goal_cases)
    case (1 f buf ls j oo off z)
    show ?case unfolding Q_def
    proof
      assume eq: "buf = buffer"
      note body = 1(2) [unfolded eq]
      have ih: "readName_loop buffer ls' j' oo' off' = Some z' \<and> P ls' j' oo' off' z'"
        if "f buffer ls' j' oo' off' = Some z'" for ls' j' oo' off' z'
        using 1(1) [OF that] by (simp add: Q_def)
      show "readName_loop buf ls j oo off = Some z
          \<and> P ls j oo off z"
      proof (cases "length buffer \<le> off")
        case True
        then show ?thesis using body outside [OF True]
          by (subst readName_loop_unfold) (auto simp: eq readUInt8_def)
      next
        case inside: False
        show ?thesis
        proof (cases "buffer ! off = 0")
          case True
          then show ?thesis using body inside zero [of off ls j oo]
            by (subst readName_loop_unfold) (auto simp: eq readUInt8_def)
        next
          case nz: False
          show ?thesis
          proof (cases "192 \<le> unat (buffer ! off)")
            case ptr: True
            show ?thesis
            proof (cases "length buffer \<le> off + 1")
              case True
              then show ?thesis
                using body inside nz ptr cut [of off ls j oo]
                by (subst readName_loop_unfold)
                   (auto simp: eq readUInt8_def is_pointer_iff unat_byte_less unat_0_iff)
            next
              case False
              let ?t = "256 * (unat (buffer ! off) - 192) + unat (buffer ! (off + 1))"
              let ?o = "if j then oo else off + 2"
              from body inside nz ptr False
              have "f buffer ls True ?o ?t = Some z"
                by (auto simp: readUInt8_def is_pointer_iff pointer_value_pushed unat_byte_less
                    unat_0_iff split: if_splits)
              from ih [OF this]
              have r: "readName_loop buffer ls True ?o ?t = Some z"
                and p: "P ls True ?o ?t z" by auto
              have pa: "pointer_at buffer off ?t"
                using False ptr by (simp add: pointer_at_def)
              show ?thesis
                using r pointer [OF pa r p] inside nz ptr False
                by (subst readName_loop_unfold) (simp add: eq)
            qed
          next
            case lab: False
            let ?len = "unat (buffer ! off)"
            let ?ls = "ls @ [toString buffer (off + 1) (off + 1 + ?len)]"
            from body inside nz lab
            have "f buffer ?ls j oo (off + 1 + ?len) = Some z"
              by (auto simp: readUInt8_def is_pointer_iff unat_byte_less unat_0_iff
                  split: if_splits)
            from ih [OF this]
            have r: "readName_loop buffer ?ls j oo (off + 1 + ?len) = Some z"
              and p: "P ?ls j oo (off + 1 + ?len) z" by auto
            have pos: "0 < ?len" using nz by (simp add: unat_gt_0)
            show ?thesis
              using r label [OF _ refl pos _ r p] inside nz lab
              by (subst readName_loop_unfold) (simp add: eq)
          qed
        qed
      qed
    qed
  qed
  then show ?thesis by (simp add: Q_def)
qed

lemma walk_pointer_at:
  "pointer_at buffer offset target \<Longrightarrow> name_walk buffer target ps e \<Longrightarrow>
   name_walk buffer offset (offset # ps) e"
  by (auto simp: pointer_at_def intro: walk_pointer)

lemma readName_loop_walk:
  assumes "readName_loop buffer labels jumped originalOffset offset = Some y"
  shows "y = Inr (labels', jumped', originalOffset', offset') \<longrightarrow>
    (\<exists>ps. name_walk buffer offset ps offset' \<and> jumped' = (jumped \<or> ps \<noteq> []) \<and>
       originalOffset' =
         (if jumped then originalOffset else case ps of [] \<Rightarrow> originalOffset | p # _ \<Rightarrow> p + 2))"
  using assms
proof (induction rule: readName_loop_induct)
  case (outside labels jumped originalOffset offset)
  then show ?case by simp
next
  case (zero labels jumped originalOffset offset)
  then have "name_walk buffer offset [] (offset + 1)" by (rule walk_end)
  then show ?case by (auto intro!: exI [of _ "[]"])
next
  case (cut labels jumped originalOffset offset)
  then show ?case by simp
next
  case (pointer labels jumped originalOffset offset target y)
  show ?case
  proof
    assume "y = Inr (labels', jumped', originalOffset', offset')"
    with pointer.IH obtain ps where ps: "name_walk buffer target ps offset'"
      and j: "jumped'" and o: "originalOffset' = (if jumped then originalOffset else offset + 2)"
      by auto
    have "name_walk buffer offset (offset # ps) offset'"
      using pointer.hyps(1) ps by (rule walk_pointer_at)
    then show "\<exists>ps. name_walk buffer offset ps offset' \<and> jumped' = (jumped \<or> ps \<noteq> []) \<and>
       originalOffset' =
         (if jumped then originalOffset else case ps of [] \<Rightarrow> originalOffset | p # _ \<Rightarrow> p + 2)"
      using j o by (intro exI [of _ "offset # ps"]) simp
  qed
next
  case (label labels jumped originalOffset offset len y)
  show ?case
  proof
    assume "y = Inr (labels', jumped', originalOffset', offset')"
    with label.IH obtain ps where ps: "name_walk buffer (offset + 1 + len) ps offset'"
      and j: "jumped' = (jumped \<or> ps \<noteq> [])"
      and o: "originalOffset' =
         (if jumped then originalOffset else case ps of [] \<Rightarrow> originalOffset | p # _ \<Rightarrow> p + 2)"
      by auto
    have "name_walk buffer offset ps offset'"
      using label.hyps ps by (auto intro: walk_label)
    then show "\<exists>ps. name_walk buffer offset ps offset' \<and> jumped' = (jumped \<or> ps \<noteq> []) \<and>
       originalOffset' =
         (if jumped then originalOffset else case ps of [] \<Rightarrow> originalOffset | p # _ \<Rightarrow> p + 2)"
      using j o by blast
  qed
qed

lemma readName_Inr:
  "readName buffer offset = Some (Inr (name, readBytes)) \<longleftrightarrow>
   (\<exists>labels jumped originalOffset offset'.
      readName_loop buffer [] False offset offset = Some (Inr (labels, jumped, originalOffset, offset'))
      \<and> name = join_str dot labels \<and> readBytes = (if jumped then originalOffset else offset'))"
  by (auto simp: readName_def bindC_def split: option.splits sum.splits)

lemma pointer_at_fun: "pointer_at buffer offset t \<Longrightarrow> pointer_at buffer offset t' \<Longrightarrow> t = t'"
  by (simp add: pointer_at_def)

lemma name_walk_unique:
  "name_walk buffer offset ps e \<Longrightarrow> name_walk buffer offset ps' e' \<Longrightarrow> ps' = ps \<and> e' = e"
proof (induction arbitrary: ps' e' rule: name_walk.induct)
  case (walk_end offset)
  from walk_end.prems show ?case
  proof (cases rule: name_walk.cases)
    case walk_end
    then show ?thesis by simp
  next
    case (walk_pointer qs)
    with walk_end.hyps show ?thesis by simp
  next
    case walk_label
    with walk_end.hyps show ?thesis by simp
  qed
next
  case outer: (walk_pointer offset ps e)
  from outer.prems show ?case
  proof (cases rule: name_walk.cases)
    case walk_end
    with outer.hyps(2) show ?thesis by simp
  next
    case (walk_pointer qs)
    from walk_pointer(4) have "qs = ps \<and> e' = e" by (rule outer.IH)
    with walk_pointer(1) show ?thesis by simp
  next
    case walk_label
    with outer.hyps(2) show ?thesis by simp
  qed
next
  case outer: (walk_label offset ps e)
  from outer.prems show ?case
  proof (cases rule: name_walk.cases)
    case walk_end
    with outer.hyps show ?thesis by simp
  next
    case (walk_pointer qs)
    with outer.hyps show ?thesis by simp
  next
    case walk_label
    then show ?thesis using outer.IH by simp
  qed
qed

lemma readName_loop_self_pointer:
  assumes self: "pointer_at buffer q q"
  shows "readName_loop buffer labels jumped originalOffset q = None"
proof (rule ccontr)
  assume "readName_loop buffer labels jumped originalOffset q \<noteq> None"
  then obtain y where run: "readName_loop buffer labels jumped originalOffset q = Some y"
    by auto
  have "off \<noteq> q" if "readName_loop buffer ls j oo off = Some z" for ls j oo off z
    using that
  proof (induction rule: readName_loop_induct)
    case (outside labels jumped originalOffset offset)
    with self show ?case by (auto simp: pointer_at_def)
  next
    case (zero labels jumped originalOffset offset)
    with self show ?case by (auto simp: pointer_at_def)
  next
    case (cut labels jumped originalOffset offset)
    with self show ?case by (auto simp: pointer_at_def)
  next
    case (pointer labels jumped originalOffset offset target y)
    show ?case
    proof
      assume "offset = q"
      with pointer.hyps(1) self have "target = q" by (auto dest: pointer_at_fun)
      with pointer.IH show False by simp
    qed
  next
    case (label labels jumped originalOffset offset len y)
    with self show ?case by (auto simp: pointer_at_def)
  qed
  from this [OF run] show False by simp
qed

lemma readName_self_pointer: "pointer_at buffer q q \<Longrightarrow> readName buffer q = None"
  by (simp add: readName_def bindC_def readName_loop_self_pointer)

lemma readName_loop_suffix:
  assumes "readName_loop buffer labels jumped originalOffset offset = Some y"
  shows "y = Inr (labels', jumped', originalOffset', offset') \<longrightarrow>
    (\<exists>d. labels' = labels @ d \<and>
      (\<forall>labels2 orig2. readName_loop buffer labels2 True orig2 offset =
          Some (Inr (labels2 @ d, True, orig2, offset'))))"
  using assms
proof (induction rule: readName_loop_induct)
  case (outside labels jumped originalOffset offset)
  then show ?case by simp
next
  case (zero labels jumped originalOffset offset)
  then show ?case by (subst readName_loop_unfold) auto
next
  case (cut labels jumped originalOffset offset)
  then show ?case by simp
next
  case (pointer labels jumped originalOffset offset target y)
  show ?case
  proof
    assume "y = Inr (labels', jumped', originalOffset', offset')"
    with pointer.IH obtain d where d: "labels' = labels @ d"
      and r: "\<And>labels2 orig2. readName_loop buffer labels2 True orig2 target =
          Some (Inr (labels2 @ d, True, orig2, offset'))" by auto
    have "readName_loop buffer labels2 True orig2 offset =
          Some (Inr (labels2 @ d, True, orig2, offset'))" for labels2 orig2
      using pointer.hyps(1) r [of labels2 orig2]
      by (subst readName_loop_unfold) (auto simp: pointer_at_def unat_0_iff)
    with d show "\<exists>d. labels' = labels @ d \<and>
      (\<forall>labels2 orig2. readName_loop buffer labels2 True orig2 offset =
          Some (Inr (labels2 @ d, True, orig2, offset')))" by blast
  qed
next
  case (label labels jumped originalOffset offset len y)
  let ?s = "toString buffer (offset + 1) (offset + 1 + len)"
  show ?case
  proof
    assume "y = Inr (labels', jumped', originalOffset', offset')"
    with label.IH obtain d where d: "labels' = (labels @ [?s]) @ d"
      and r: "\<And>labels2 orig2. readName_loop buffer labels2 True orig2 (offset + 1 + len) =
          Some (Inr (labels2 @ d, True, orig2, offset'))" by auto
    have "readName_loop buffer labels2 True orig2 offset =
          Some (Inr (labels2 @ (?s # d), True, orig2, offset'))" for labels2 orig2
      using label.hyps r [of "labels2 @ [?s]" orig2]
      by (subst readName_loop_unfold) (auto simp: unat_0_iff)
    with d show "\<exists>d. labels' = labels @ d \<and>
      (\<forall>labels2 orig2. readName_loop buffer labels2 True orig2 offset =
          Some (Inr (labels2 @ d, True, orig2, offset')))"
      by (intro exI [of _ "?s # d"]) simp
  qed
qed

text \<open>A name of plain labels is read label by label, up to its zero byte.\<close>

lemma wire_name_Cons: "wire_name (l # ls) = wire_label l @ wire_name ls"
  by (simp add: wire_name_def)

lemma readName_loop_wire:
  assumes "\<forall>l\<in>set ls. l \<noteq> [] \<and> length l \<le> 191"
  shows "readName_loop (pre @ wire_name ls @ post) labels jumped orig (length pre)
    = Some (Inr (labels @ map utf8_decode ls, jumped, orig, length pre + length (wire_name ls)))"
  using assms
proof (induction ls arbitrary: pre labels)
  case Nil
  show ?case by (subst readName_loop_unfold) (simp add: wire_name_def)
next
  case (Cons l ls)
  let ?buf = "pre @ wire_name (l # ls) @ post"
  from Cons.prems have l: "l \<noteq> []" "length l \<le> 191" by auto
  have buf: "?buf = (pre @ wire_label l) @ wire_name ls @ post"
    by (simp add: wire_name_Cons)
  have b0: "?buf ! length pre = of_nat (length l)"
    by (simp add: wire_name_Cons wire_label_def nth_append)
  have u: "unat (?buf ! length pre) = length l"
    unfolding b0 using l(2) by (simp add: unat_byte_of_nat)
  have len: "length (wire_label l) = length l + 1" by (simp add: wire_label_def)
  have wl: "length (wire_name (l # ls)) = length l + 1 + length (wire_name ls)"
    by (simp add: wire_name_Cons len)
  have "slice ?buf (length pre + 1) (length pre + 1 + length l) = l"
    by (simp add: slice_def wire_name_Cons wire_label_def)
  then have ts: "toString ?buf (length pre + 1) (length pre + 1 + length l) = utf8_decode l"
    by (simp add: toString_def)
  have ih: "readName_loop ?buf (labels @ [utf8_decode l]) jumped orig (length pre + 1 + length l)
     = Some (Inr ((labels @ [utf8_decode l]) @ map utf8_decode ls, jumped, orig,
          length (pre @ wire_label l) + length (wire_name ls)))"
    using Cons.IH [of "pre @ wire_label l" "labels @ [utf8_decode l]"] Cons.prems
    unfolding buf by (simp add: len)
  have nz: "?buf ! length pre \<noteq> 0"
    using u l(1) by (metis length_0_conv unat_0_iff)
  have inside: "length pre < length ?buf"
    by (simp add: wl)
  show ?case
    apply (subst readName_loop_unfold)
    using nz l(2) ih inside unfolding u ts
    by (simp add: len wl)
qed

lemma readName_wire:
  assumes "\<forall>l\<in>set ls. l \<noteq> [] \<and> length l \<le> 191"
  shows "readName (pre @ wire_name ls @ post) (length pre)
    = Some (Inr (join_str dot (map utf8_decode ls), length pre + length (wire_name ls)))"
  by (simp add: readName_def readName_loop_wire [OF assms] bindC_def)

text \<open>A pointer to a name that decodes gives the same name, and two bytes consumed.\<close>

lemma readName_pointer_follow:
  assumes first: "readName buffer p = Some (Inr (name, e))"
    and second: "pointer_at buffer q p"
  shows "readName buffer q = Some (Inr (name, q + 2))"
proof -
  from first obtain labels jumped originalOffset offset' where
    run: "readName_loop buffer [] False p p = Some (Inr (labels, jumped, originalOffset, offset'))"
    and nm: "name = join_str dot labels"
    unfolding readName_Inr by blast
  from readName_loop_suffix [OF run, of labels jumped originalOffset offset']
  have r: "readName_loop buffer [] True (q + 2) p = Some (Inr (labels, True, q + 2, offset'))"
    by auto
  have "readName_loop buffer [] False q q = Some (Inr (labels, True, q + 2, offset'))"
    using second r by (subst readName_loop_unfold) (auto simp: pointer_at_def unat_0_iff)
  then show ?thesis by (simp add: readName_def bindC_def nm)
qed

lemma readName_Inr_inside:
  assumes "readName buffer offset = Some (Inr x)"
  shows "offset < length buffer"
proof (rule ccontr)
  assume "\<not> offset < length buffer"
  then have "readName_loop buffer [] False offset offset = Some (Inl RangeError)"
    by (subst readName_loop_unfold) simp
  with assms show False by (simp add: readName_def bindC_def)
qed

lemmas readName_eval =
  readName_def readName_loop.simps bindC_def buffer_ops string_ops

subsection \<open>readName: the bytes consumed\<close>

text \<open>
  C1. Whenever \<^verbatim>\<open>readName\<close> returns a name, the buffer holds exactly one path from the
  offset to a terminating zero byte (\<open>name_walk\<close>); with no pointer on the path,
  \<^verbatim>\<open>readBytes\<close> is the position just after the zero byte; otherwise it is the position of
  the first pointer plus 2, whatever the later pointers and the jumped-to region are.
\<close>

theorem readName_readBytes:
  assumes "readName buffer offset = Some (Inr (name, readBytes))"
  shows "\<exists>ps e. name_walk buffer offset ps e \<and>
           (\<forall>ps' e'. name_walk buffer offset ps' e' \<longrightarrow> ps' = ps \<and> e' = e) \<and>
           readBytes = (case ps of [] \<Rightarrow> e | p # _ \<Rightarrow> p + 2)"
proof -
  from assms obtain labels jumped originalOffset offset' where
    run: "readName_loop buffer [] False offset offset =
            Some (Inr (labels, jumped, originalOffset, offset'))"
    and rb: "readBytes = (if jumped then originalOffset else offset')"
    unfolding readName_Inr by blast
  from readName_loop_walk [OF run, of labels jumped originalOffset offset']
  obtain ps where ps: "name_walk buffer offset ps offset'" and j: "jumped = (ps \<noteq> [])"
    and o: "originalOffset = (case ps of [] \<Rightarrow> offset | p # _ \<Rightarrow> p + 2)"
    by auto
  have "readBytes = (case ps of [] \<Rightarrow> offset' | p # _ \<Rightarrow> p + 2)"
    using j o rb by (auto split: list.splits)
  with ps name_walk_unique [OF ps] show ?thesis by blast
qed

text \<open>
  On the name with pointers at 4 and at 10, \<^verbatim>\<open>readBytes\<close> is 6, the first pointer plus 2.
\<close>

theorem readName_readBytes_witness:
  "readName name_two_pointers 0 = Some (Inr (js ''abc.d'', 4 + 2))
   \<and> name_walk name_two_pointers 0 [4, 10] 14
   \<and> (\<exists>ps e. name_walk name_two_pointers 0 ps e \<and>
         (\<forall>ps' e'. name_walk name_two_pointers 0 ps' e' \<longrightarrow> ps' = ps \<and> e' = e) \<and>
         (4 + 2 :: nat) = (case ps of [] \<Rightarrow> e | p # _ \<Rightarrow> p + 2))"
proof -
  have h: "readName name_two_pointers 0 = Some (Inr (js ''abc.d'', 4 + 2))"
    by (simp add: readName_eval name_two_pointers_def)
  have "name_walk name_two_pointers 13 [] (13 + 1)"
    by (rule walk_end) (simp_all add: name_two_pointers_def)
  then have "name_walk name_two_pointers 10 [10] 14"
    using walk_pointer [of 10 name_two_pointers "[]" 14]
    by (simp add: name_two_pointers_def)
  then have "name_walk name_two_pointers 8 [10] 14"
    using walk_label [of 8 name_two_pointers "[10]" 14]
    by (simp add: name_two_pointers_def)
  then have "name_walk name_two_pointers 4 [4, 10] 14"
    using walk_pointer [of 4 name_two_pointers "[10]" 14]
    by (simp add: name_two_pointers_def)
  then have w: "name_walk name_two_pointers 0 [4, 10] 14"
    using walk_label [of 0 name_two_pointers "[4, 10]" 14]
    by (simp add: name_two_pointers_def)
  from readName_readBytes [OF h] h w show ?thesis by blast
qed

subsection \<open>readName: a pointer to its own offset\<close>

text \<open>
  C2, as the source has it. \<^verbatim>\<open>readName\<close> counts no hops: on a name that starts with a
  compression pointer to its own offset the loop never ends, so the call returns neither a
  name nor an error.
\<close>

theorem readName_self_pointer_never_returns:
  "pointer_at buffer q q \<Longrightarrow> readName buffer q = None"
  by (rule readName_self_pointer)

theorem readName_self_pointer_never_returns_witness:
  "pointer_at self_pointer_query 12 12 \<and> readName self_pointer_query 12 = None"
proof -
  have h: "pointer_at self_pointer_query 12 12"
    by (simp add: pointer_at_def self_pointer_query_def)
  from readName_self_pointer_never_returns [OF h] h show ?thesis by simp
qed

text \<open>
  C2, as the claim has it: on the two bytes \<open>C0 00\<close>, a pointer at offset 0 to offset 0,
  \<^verbatim>\<open>readName\<close> does not fail with an error; it does not return.
\<close>

theorem readName_loop_error_counterexample:
  "readName [0xC0, 0x00] 0 = None"
  by (rule readName_self_pointer) (simp add: pointer_at_def)

subsection \<open>readName: a name and a pointer to it\<close>

text \<open>
  C5. A buffer holds a name twice: first as plain labels, the bytes \<open>wire_name ls\<close> after
  the bytes \<open>pre\<close>, every label of 1 to 191 bytes (so every label of at most 63 bytes); and
  at \<open>q\<close> as a compression pointer to the first occurrence. Then \<^verbatim>\<open>readName\<close> returns at
  both places, with the same name, the labels joined by dots: at the first occurrence
  \<^verbatim>\<open>readBytes\<close> is the offset just after the zero byte, and at the pointer it is \<open>q + 2\<close>,
  two bytes consumed.
\<close>

theorem readName_pointer_to_name:
  assumes labels: "\<forall>l\<in>set ls. l \<noteq> [] \<and> length l \<le> 191"
    and second: "pointer_at (pre @ wire_name ls @ post) q (length pre)"
  shows "readName (pre @ wire_name ls @ post) (length pre)
           = Some (Inr (join_str dot (map utf8_decode ls), length pre + length (wire_name ls)))
       \<and> readName (pre @ wire_name ls @ post) q
           = Some (Inr (join_str dot (map utf8_decode ls), q + 2))"
proof -
  have first: "readName (pre @ wire_name ls @ post) (length pre)
      = Some (Inr (join_str dot (map utf8_decode ls), length pre + length (wire_name ls)))"
    by (rule readName_wire [OF labels])
  from first readName_pointer_follow [OF first second] show ?thesis ..
qed

text \<open>
  The name \<open>ab.cd\<close> at offset 2, seven bytes on the wire, and the pointer to it at offset 9:
  \<^verbatim>\<open>readName\<close> returns \<open>ab.cd\<close> at both offsets, with \<^verbatim>\<open>readBytes\<close> 9 at the first and
  \<open>9 + 2\<close> at the pointer.
\<close>

theorem readName_pointer_to_name_witness:
  "readName name_then_pointer 2 = Some (Inr (js ''ab.cd'', 9))
   \<and> pointer_at name_then_pointer 9 2
   \<and> readName name_then_pointer 9 = Some (Inr (js ''ab.cd'', 9 + 2))"
proof -
  let ?pre = "[0xFF, 0xFF] :: buffer"
  let ?ls = "[[0x61, 0x62], [0x63, 0x64]] :: byte list list"
  let ?post = "[0xC0, 0x02] :: buffer"
  have b: "name_then_pointer = ?pre @ wire_name ?ls @ ?post"
    by (simp add: name_then_pointer_def wire_name_def wire_label_def)
  have h1: "\<forall>l\<in>set ?ls. l \<noteq> [] \<and> length l \<le> 191"
    by simp
  have h2: "pointer_at name_then_pointer 9 2"
    by (simp add: pointer_at_def name_then_pointer_def)
  have h2': "pointer_at (?pre @ wire_name ?ls @ ?post) 9 (length ?pre)"
    by (simp add: pointer_at_def wire_name_def wire_label_def)
  have n: "join_str dot (map utf8_decode ?ls) = js ''ab.cd''"
    by (simp add: string_ops)
  have w: "length (wire_name ?ls) = 7"
    by (simp add: wire_name_def wire_label_def)
  have p: "length ?pre = 2"
    by simp
  from readName_pointer_to_name [OF h1 h2'] h2 show ?thesis
    unfolding n b [symmetric] p w by simp
qed

subsection \<open>readName: length bytes from 64 to 191\<close>



subsection \<open>parseRecord: the fields of a record\<close>

lemma readUInt16BE_be16:
  "readUInt16BE buffer offset =
     (if offset + 2 \<le> length buffer then Inr (be16 buffer offset) else Inl RangeError)"
  by (simp add: readUInt16BE_def be16_def)

lemma readUInt32BE_be32:
  "readUInt32BE buffer offset =
     (if offset + 4 \<le> length buffer then Inr (be32 buffer offset) else Inl RangeError)"
  by (simp add: readUInt32BE_def be32_def)

lemma bindC_simps [simp]:
  "bindC None f = None"
  "bindC (Some (Inl e)) f = Some (Inl e)"
  "bindC (Some (Inr x)) f = f x"
  by (simp_all add: bindC_def)

lemma bindC_eq_Some_Inr:
  "bindC m f = Some (Inr r) \<longleftrightarrow> (\<exists>x. m = Some (Inr x) \<and> f x = Some (Inr r))"
  by (auto simp: bindC_def split: option.splits sum.splits)

lemma Some_Inr_eq_bindC:
  "Some (Inr r) = bindC m f \<longleftrightarrow> (\<exists>x. m = Some (Inr x) \<and> Some (Inr r) = f x)"
  by (auto simp: bindC_def split: option.splits sum.splits)

text \<open>The record after its name and its ten bytes of fixed fields.\<close>

lemma parseRecord_fields:
  assumes "readName buffer offset0 = Some (Inr (name, e))" and "e + 10 \<le> length buffer"
  shows "parseRecord buffer offset0 =
    (let rtype = be16 buffer e; rdlength = be16 buffer (e + 8); offset = e + 10;
         result = (\<lambda>rdata offset'.
           Some (Inr \<lparr>r_name = name, r_type = rtype, r_cls = be16 buffer (e + 2),
                       r_ttl = be32 buffer (e + 4), r_rdlength = rdlength, r_rdata = rdata,
                       r_offset = offset'\<rparr>))
     in
     if rtype = 12 then
       bindC (readName buffer offset) (\<lambda>(nm, readBytes).
       result (PTR nm) (offset + rdlength))
     else if rtype = 33 then
       bindC (Some (readUInt16BE buffer offset)) (\<lambda>priority.
       bindC (Some (readUInt16BE buffer (offset + 2))) (\<lambda>weight.
       bindC (Some (readUInt16BE buffer (offset + 4))) (\<lambda>port.
       bindC (readName buffer (offset + 6)) (\<lambda>(target, readBytes).
       result (SRV priority weight port target) (offset + rdlength)))))
     else if rtype = 16 then
       bindC (Some (txt_loop buffer (offset + rdlength) offset Map.empty)) (\<lambda>(txts, offset').
       result (TXT txts) offset')
     else if rtype = 1 then
       bindC (Some (a_loop buffer offset rdlength 0 [])) (\<lambda>ipBytes.
       result (A (join_str dot (map decimal ipBytes))) (offset + rdlength))
     else
       result (Raw (slice buffer offset (offset + rdlength))) (offset + rdlength))"
  using assms by (simp add: parseRecord_def readUInt16BE_be16 readUInt32BE_be32 Let_def)

lemma parseRecord_Inr_name:
  assumes "parseRecord buffer offset0 = Some (Inr r)"
  shows "\<exists>name e. readName buffer offset0 = Some (Inr (name, e)) \<and> e + 10 \<le> length buffer"
proof -
  from assms obtain name e where n: "readName buffer offset0 = Some (Inr (name, e))"
    and "\<exists>rdlength. readUInt16BE buffer (e + 8) = Inr rdlength"
    by (auto simp: parseRecord_def bindC_eq_Some_Inr)
  then have "e + 10 \<le> length buffer"
    by (auto simp: readUInt16BE_def split: if_splits)
  with n show ?thesis by blast
qed

lemma parseRecord_Inr:
  assumes "parseRecord buffer offset0 = Some (Inr r)"
  obtains name e where "readName buffer offset0 = Some (Inr (name, e))"
    and "e + 10 \<le> length buffer"
    and "r_name r = name" and "r_type r = be16 buffer e" and "r_cls r = be16 buffer (e + 2)"
    and "r_ttl r = be32 buffer (e + 4)" and "r_rdlength r = be16 buffer (e + 8)"
    and "r_type r = 12 \<Longrightarrow> \<exists>nm c. readName buffer (e + 10) = Some (Inr (nm, c)) \<and>
           r_rdata r = PTR nm \<and> r_offset r = e + 10 + r_rdlength r"
    and "r_type r = 33 \<Longrightarrow> \<exists>tgt c. readName buffer (e + 16) = Some (Inr (tgt, c)) \<and>
           e + 16 \<le> length buffer \<and>
           r_rdata r = SRV (be16 buffer (e + 10)) (be16 buffer (e + 12)) (be16 buffer (e + 14)) tgt
           \<and> r_offset r = e + 10 + r_rdlength r"
    and "r_type r = 16 \<Longrightarrow> \<exists>txts.
           txt_loop buffer (e + 10 + r_rdlength r) (e + 10) Map.empty = Inr (txts, r_offset r) \<and>
           r_rdata r = TXT txts"
    and "r_type r = 1 \<Longrightarrow> \<exists>ipBytes. a_loop buffer (e + 10) (r_rdlength r) 0 [] = Inr ipBytes \<and>
           r_rdata r = A (join_str dot (map decimal ipBytes)) \<and>
           r_offset r = e + 10 + r_rdlength r"
    and "r_type r \<notin> {12, 33, 16, 1} \<Longrightarrow>
           r_rdata r = Raw (slice buffer (e + 10) (e + 10 + r_rdlength r)) \<and>
           r_offset r = e + 10 + r_rdlength r"
proof -
  from parseRecord_Inr_name [OF assms] obtain name e where
    n: "readName buffer offset0 = Some (Inr (name, e))" and e: "e + 10 \<le> length buffer"
    by blast
  note u = assms [unfolded parseRecord_fields [OF n e] Let_def, symmetric]
  have f: "r_name r = name" "r_type r = be16 buffer e" "r_cls r = be16 buffer (e + 2)"
    "r_ttl r = be32 buffer (e + 4)" "r_rdlength r = be16 buffer (e + 8)"
    using u by (auto simp: Some_Inr_eq_bindC split: if_splits)
  have p: "\<exists>nm c. readName buffer (e + 10) = Some (Inr (nm, c)) \<and>
           r_rdata r = PTR nm \<and> r_offset r = e + 10 + r_rdlength r" if "r_type r = 12"
    using u that by (auto simp: Some_Inr_eq_bindC split: if_splits)
  have s: "\<exists>tgt c. readName buffer (e + 16) = Some (Inr (tgt, c)) \<and>
           e + 16 \<le> length buffer \<and>
           r_rdata r = SRV (be16 buffer (e + 10)) (be16 buffer (e + 12)) (be16 buffer (e + 14)) tgt
           \<and> r_offset r = e + 10 + r_rdlength r" if "r_type r = 33"
    using u that
    by (auto simp: Some_Inr_eq_bindC readUInt16BE_be16 add.commute add.left_commute split: if_splits)
  have t: "\<exists>txts.
           txt_loop buffer (e + 10 + r_rdlength r) (e + 10) Map.empty = Inr (txts, r_offset r) \<and>
           r_rdata r = TXT txts" if "r_type r = 16"
    using u that by (auto simp: Some_Inr_eq_bindC split: if_splits)
  have a: "\<exists>ipBytes. a_loop buffer (e + 10) (r_rdlength r) 0 [] = Inr ipBytes \<and>
           r_rdata r = A (join_str dot (map decimal ipBytes)) \<and>
           r_offset r = e + 10 + r_rdlength r" if "r_type r = 1"
    using u that by (auto simp: Some_Inr_eq_bindC split: if_splits)
  have o: "r_rdata r = Raw (slice buffer (e + 10) (e + 10 + r_rdlength r)) \<and>
           r_offset r = e + 10 + r_rdlength r" if "r_type r \<notin> {12, 33, 16, 1}"
    using u that by (auto simp: Some_Inr_eq_bindC split: if_splits)
  from n e f p s t a o show ?thesis by (rule that)
qed

lemmas parseRecord_eval =
  parseRecord_def readName_eval txt_loop.simps a_loop.simps txt_store_def indexOf_def obj_set_def

subsection \<open>parseRecord: the TXT loop\<close>

lemma txt_loop_inside:
  "rdend \<le> length buffer \<Longrightarrow>
   \<exists>txts' offset'. txt_loop buffer rdend offset txts = Inr (txts', offset') \<and>
      rdend \<le> offset' \<and> offset \<le> offset' \<and> (offset \<le> rdend + 255 \<longrightarrow> offset' \<le> rdend + 255)"
proof (induction buffer rdend offset txts rule: txt_loop.induct)
  case (1 buffer rdend offset txts)
  show ?case
  proof (cases "offset < rdend")
    case False
    then show ?thesis by (subst txt_loop.simps) simp
  next
    case True
    with "1.prems" have r: "readUInt8 buffer offset = Inr (unat (buffer ! offset))"
      by (simp add: readUInt8_def)
    let ?n = "offset + 1 + unat (buffer ! offset)"
    from "1.IH" [OF True r "1.prems"] obtain txts' offset' where
      l: "txt_loop buffer rdend ?n
            (txt_store txts (toString buffer (offset + 1) ?n)) = Inr (txts', offset')"
      and b: "rdend \<le> offset'" "?n \<le> offset'" "?n \<le> rdend + 255 \<longrightarrow> offset' \<le> rdend + 255"
      by blast
    have "?n \<le> rdend + 255" using True unat_byte_less [of "buffer ! offset"] by simp
    with b l True r show ?thesis by (subst txt_loop.simps) simp
  qed
qed

lemma txt_key_value:
  "txt_store txts s = obj_set txts (txt_key s) (txt_value s)"
proof (cases "equals_sign \<in> set s")
  case True
  define n where "n = length (takeWhile (\<lambda>c. c \<noteq> equals_sign) s)"
  have i: "indexOf s equals_sign = int n"
    using True by (simp add: indexOf_def n_def)
  have k: "take n s = txt_key s"
    unfolding n_def txt_key_def by (rule takeWhile_eq_take [symmetric])
  have "drop (Suc n) s = tl (drop n s)"
    by (simp only: drop_Suc tl_drop)
  then have v: "drop (n + 1) s = tl (dropWhile (\<lambda>c. c \<noteq> equals_sign) s)"
    unfolding n_def by (simp only: dropWhile_eq_drop Suc_eq_plus1)
  have "txt_store txts s = obj_set txts (take n s) (TxtStr (drop (n + 1) s))"
    unfolding txt_store_def Let_def i by simp
  also have "\<dots> = obj_set txts (txt_key s) (txt_value s)"
    unfolding k v using True by (simp only: txt_value_def if_True)
  finally show ?thesis .
next
  case False
  then have t: "takeWhile (\<lambda>c. c \<noteq> equals_sign) s = s"
    by (auto simp: takeWhile_eq_all_conv)
  show ?thesis
    unfolding txt_key_def t using False by (simp add: txt_store_def indexOf_def txt_value_def)
qed

lemma txt_loop_map:
  "txt_loop buffer rdend offset txts = Inr (txts', offset') \<Longrightarrow> k \<noteq> js ''__proto__'' \<Longrightarrow>
   txts' k = (case txt_last (txt_strings buffer rdend offset) k of
                Some v \<Rightarrow> Some v | None \<Rightarrow> txts k)"
proof (induction buffer rdend offset txts rule: txt_loop.induct)
  case (1 buffer rdend offset txts)
  show ?case
  proof (cases "offset < rdend")
    case False
    with "1.prems" show ?thesis
      by (subst txt_strings.simps) (simp add: txt_loop.simps)
  next
    case True
    from "1.prems"(1) True have inside: "offset < length buffer"
      by (subst (asm) txt_loop.simps) (simp add: readUInt8_def split: if_splits)
    then have r: "readUInt8 buffer offset = Inr (unat (buffer ! offset))"
      by (simp add: readUInt8_def)
    let ?n = "offset + 1 + unat (buffer ! offset)"
    let ?s = "toString buffer (offset + 1) ?n"
    from "1.prems"(1) True r
    have l: "txt_loop buffer rdend ?n (txt_store txts ?s) = Inr (txts', offset')"
      by (subst (asm) txt_loop.simps) simp
    from "1.IH" [OF True r l "1.prems"(2)]
    have ih: "txts' k = (case txt_last (txt_strings buffer rdend ?n) k of
                Some v \<Rightarrow> Some v | None \<Rightarrow> txt_store txts ?s k)" .
    have st: "txt_strings buffer rdend offset = ?s # txt_strings buffer rdend ?n"
      using True inside by (subst txt_strings.simps) simp
    show ?thesis
      unfolding st ih using "1.prems"(2)
      by (simp add: txt_key_value obj_set_def split: option.splits)
  qed
qed

lemma txt_end_stop: "\<not> offset < rdend \<Longrightarrow> txt_end buffer rdend offset = offset"
  by (simp add: txt_end_def txt_spans.simps)

lemma txt_end_step:
  "offset < rdend \<Longrightarrow> offset < length buffer \<Longrightarrow>
   txt_end buffer rdend offset = txt_end buffer rdend (offset + 1 + unat (buffer ! offset))"
  by (subst txt_end_def, subst txt_spans.simps) (simp add: txt_end_def)

lemma txt_loop_end:
  "rdend \<le> length buffer \<Longrightarrow>
   \<exists>txts'. txt_loop buffer rdend offset txts = Inr (txts', txt_end buffer rdend offset)"
proof (induction buffer rdend offset txts rule: txt_loop.induct)
  case (1 buffer rdend offset txts)
  show ?case
  proof (cases "offset < rdend")
    case False
    then show ?thesis by (subst txt_loop.simps) (simp add: txt_end_stop)
  next
    case True
    with "1.prems" have inside: "offset < length buffer" by simp
    then have r: "readUInt8 buffer offset = Inr (unat (buffer ! offset))"
      by (simp add: readUInt8_def)
    let ?n = "offset + 1 + unat (buffer ! offset)"
    from "1.IH" [OF True r "1.prems"] obtain txts' where
      l: "txt_loop buffer rdend ?n
            (txt_store txts (toString buffer (offset + 1) ?n)) = Inr (txts', txt_end buffer rdend ?n)"
      by blast
    show ?thesis
      unfolding txt_end_step [OF True inside] using l True r by (subst txt_loop.simps) simp
  qed
qed

lemma txt_strings_spans:
  "txt_strings buffer rdend offset =
     map (\<lambda>(s, t). toString buffer (s + 1) t) (txt_spans buffer rdend offset)"
proof (induction buffer rdend offset rule: txt_strings.induct)
  case (1 buffer rdend offset)
  show ?case
  proof (cases "offset < rdend \<and> offset < length buffer")
    case False
    then show ?thesis by (subst txt_strings.simps, subst txt_spans.simps) auto
  next
    case True
    from "1.IH" [OF True] True show ?thesis
      by (subst txt_strings.simps, subst txt_spans.simps) simp
  qed
qed

lemma parseRecord_txt_last:
  assumes "parseRecord buffer offset = Some (Inr r)" and "r_type r = 16"
    and "readName buffer offset = Some (Inr (name, e))"
  shows "\<exists>txts. r_rdata r = TXT txts \<and>
     (\<forall>k. k \<noteq> js ''__proto__'' \<longrightarrow>
        txts k = txt_last (txt_strings buffer (e + 10 + r_rdlength r) (e + 10)) k)"
  using assms(1)
proof (cases rule: parseRecord_Inr)
  case (1 name' e')
  from 1(1) assms(3) have e: "e' = e" by simp
  from 1(10) [OF assms(2)] obtain txts where
    l: "txt_loop buffer (e + 10 + r_rdlength r) (e + 10) Map.empty = Inr (txts, r_offset r)"
    and d: "r_rdata r = TXT txts" unfolding e by blast
  have "txts k = txt_last (txt_strings buffer (e + 10 + r_rdlength r) (e + 10)) k"
    if "k \<noteq> js ''__proto__''" for k
    using txt_loop_map [OF l that] by (simp split: option.splits)
  with d show ?thesis by blast
qed

subsection \<open>parseRecord: PTR and SRV records\<close>

text \<open>
  C6. \<^verbatim>\<open>parseRecord\<close> returns a record \<open>r\<close> of type 12 (PTR) or 33 (SRV) exactly when
  the record's name decodes, ending at some \<open>e\<close>, the ten bytes of fixed fields after it lie
  inside the buffer and give the type 12 or 33, and the inner name decodes: the name at the
  start of the rdata, \<open>e + 10\<close>, for PTR, and the name 6 bytes into the rdata for SRV. The
  record is then this one: the rdata of a PTR record is the inner name; the rdata of an SRV
  record is the three big-endian 16-bit fields at the start of the rdata (priority, weight,
  port) and the inner name as the target; and the next offset is the start of the rdata plus
  the declared \<^verbatim>\<open>rdlength\<close>, whatever the position \<open>c\<close> at which the inner name ends.
\<close>

theorem parseRecord_ptr_srv:
  "(parseRecord buffer offset = Some (Inr r) \<and> (r_type r = 12 \<or> r_type r = 33)) \<longleftrightarrow>
   (\<exists>name e nm c.
      readName buffer offset = Some (Inr (name, e)) \<and> e + 10 \<le> length buffer \<and>
      (be16 buffer e = 12 \<or> be16 buffer e = 33) \<and>
      readName buffer (if be16 buffer e = 12 then e + 10 else e + 10 + 6) = Some (Inr (nm, c)) \<and>
      r = \<lparr>r_name = name, r_type = be16 buffer e, r_cls = be16 buffer (e + 2),
           r_ttl = be32 buffer (e + 4), r_rdlength = be16 buffer (e + 8),
           r_rdata = (if be16 buffer e = 12 then PTR nm
                      else SRV (be16 buffer (e + 10)) (be16 buffer (e + 10 + 2))
                               (be16 buffer (e + 10 + 4)) nm),
           r_offset = e + 10 + be16 buffer (e + 8)\<rparr>)"
  (is "?L \<longleftrightarrow> ?R")
proof
  assume ?L
  then have pr: "parseRecord buffer offset = Some (Inr r)"
    and ty: "r_type r = 12 \<or> r_type r = 33" by auto
  from parseRecord_Inr_name [OF pr] obtain name e where
    n: "readName buffer offset = Some (Inr (name, e))" and e: "e + 10 \<le> length buffer"
    by blast
  note u = pr [unfolded parseRecord_fields [OF n e] Let_def, symmetric]
  have t: "r_type r = be16 buffer e"
    using u by (auto simp: Some_Inr_eq_bindC split: if_splits)
  show ?R
  proof (cases "be16 buffer e = 12")
    case True
    with u obtain nm c where i: "readName buffer (e + 10) = Some (Inr (nm, c))"
      and r: "r = \<lparr>r_name = name, r_type = 12, r_cls = be16 buffer (e + 2),
           r_ttl = be32 buffer (e + 4), r_rdlength = be16 buffer (e + 8),
           r_rdata = PTR nm, r_offset = e + 10 + be16 buffer (e + 8)\<rparr>"
      by (auto simp: Some_Inr_eq_bindC)
    from n e True i r show ?thesis
      by (intro exI [of _ name] exI [of _ e] exI [of _ nm] exI [of _ c]) simp
  next
    case False
    with t ty have s: "be16 buffer e = 33" by simp
    with u obtain nm c where i: "readName buffer (e + 10 + 6) = Some (Inr (nm, c))"
      and r: "r = \<lparr>r_name = name, r_type = 33, r_cls = be16 buffer (e + 2),
           r_ttl = be32 buffer (e + 4), r_rdlength = be16 buffer (e + 8),
           r_rdata = SRV (be16 buffer (e + 10)) (be16 buffer (e + 10 + 2))
                         (be16 buffer (e + 10 + 4)) nm,
           r_offset = e + 10 + be16 buffer (e + 8)\<rparr>"
      by (auto simp: Some_Inr_eq_bindC readUInt16BE_be16 add.commute add.left_commute
          split: if_splits)
    from n e s i r show ?thesis
      by (intro exI [of _ name] exI [of _ e] exI [of _ nm] exI [of _ c]) simp
  qed
next
  assume ?R
  then obtain name e nm c where
    n: "readName buffer offset = Some (Inr (name, e))" and e: "e + 10 \<le> length buffer"
    and ty: "be16 buffer e = 12 \<or> be16 buffer e = 33"
    and i: "readName buffer (if be16 buffer e = 12 then e + 10 else e + 10 + 6) = Some (Inr (nm, c))"
    and r: "r = \<lparr>r_name = name, r_type = be16 buffer e, r_cls = be16 buffer (e + 2),
           r_ttl = be32 buffer (e + 4), r_rdlength = be16 buffer (e + 8),
           r_rdata = (if be16 buffer e = 12 then PTR nm
                      else SRV (be16 buffer (e + 10)) (be16 buffer (e + 10 + 2))
                               (be16 buffer (e + 10 + 4)) nm),
           r_offset = e + 10 + be16 buffer (e + 8)\<rparr>"
    by blast
  show ?L
  proof (cases "be16 buffer e = 12")
    case True
    with i have "readName buffer (e + 10) = Some (Inr (nm, c))" by simp
    with True r show ?thesis
      unfolding parseRecord_fields [OF n e] by (simp add: Let_def)
  next
    case False
    with ty have s: "be16 buffer e = 33" by simp
    with i have i': "readName buffer (e + 10 + 6) = Some (Inr (nm, c))" by simp
    from readName_Inr_inside [OF i'] have "e + 10 + 6 \<le> length buffer" by simp
    with s i' r show ?thesis
      unfolding parseRecord_fields [OF n e]
      by (simp add: Let_def readUInt16BE_be16 add.commute add.left_commute)
  qed
qed

text \<open>
  A PTR record that declares 7 bytes of rdata and holds the 3-byte name \<open>a\<close>: the next offset
  is \<open>1 + 10 + 7\<close>, while the inner name ends at 14. An SRV record that declares 12 bytes of
  rdata, with priority 10, weight 20, port 8080 and the 3-byte target \<open>b\<close> 6 bytes into the
  rdata: the next offset is \<open>1 + 10 + 12\<close>, while the target ends at 20.
\<close>

theorem parseRecord_ptr_srv_witness:
  "parseRecord ptr_record 0 =
     Some (Inr \<lparr>r_name = [], r_type = 12, r_cls = 1, r_ttl = 120, r_rdlength = 7,
                r_rdata = PTR (js ''a''), r_offset = 1 + 10 + 7\<rparr>)
   \<and> readName ptr_record (1 + 10) = Some (Inr (js ''a'', 14))
   \<and> parseRecord srv_record 0 =
     Some (Inr \<lparr>r_name = [], r_type = 33, r_cls = 1, r_ttl = 120, r_rdlength = 12,
                r_rdata = SRV 10 20 8080 (js ''b''), r_offset = 1 + 10 + 12\<rparr>)
   \<and> readName srv_record (1 + 10 + 6) = Some (Inr (js ''b'', 20))"
proof -
  let ?p = "\<lparr>r_name = [], r_type = 12, r_cls = 1, r_ttl = 120, r_rdlength = 7,
             r_rdata = PTR (js ''a''), r_offset = 18\<rparr>"
  let ?s = "\<lparr>r_name = [], r_type = 33, r_cls = 1, r_ttl = 120, r_rdlength = 12,
             r_rdata = SRV 10 20 8080 (js ''b''), r_offset = 23\<rparr>"
  have pn: "readName ptr_record 0 = Some (Inr ([], 1))"
    by (simp add: readName_eval ptr_record_def)
  have pi: "readName ptr_record (1 + 10) = Some (Inr (js ''a'', 14))"
    by (simp add: readName_eval ptr_record_def)
  have pf: "be16 ptr_record 1 = 12" "be16 ptr_record (1 + 2) = 1" "be32 ptr_record (1 + 4) = 120"
    "be16 ptr_record (1 + 8) = 7" "1 + 10 \<le> length ptr_record"
    by (simp_all add: be16_def be32_def ptr_record_def)
  have "\<exists>name e nm c.
      readName ptr_record 0 = Some (Inr (name, e)) \<and> e + 10 \<le> length ptr_record \<and>
      (be16 ptr_record e = 12 \<or> be16 ptr_record e = 33) \<and>
      readName ptr_record (if be16 ptr_record e = 12 then e + 10 else e + 10 + 6)
        = Some (Inr (nm, c)) \<and>
      ?p = \<lparr>r_name = name, r_type = be16 ptr_record e, r_cls = be16 ptr_record (e + 2),
           r_ttl = be32 ptr_record (e + 4), r_rdlength = be16 ptr_record (e + 8),
           r_rdata = (if be16 ptr_record e = 12 then PTR nm
                      else SRV (be16 ptr_record (e + 10)) (be16 ptr_record (e + 10 + 2))
                               (be16 ptr_record (e + 10 + 4)) nm),
           r_offset = e + 10 + be16 ptr_record (e + 8)\<rparr>"
    using pn pi pf
    by (intro exI [of _ "[]"] exI [of _ 1] exI [of _ "js ''a''"] exI [of _ 14]) simp
  then have p: "parseRecord ptr_record 0 = Some (Inr ?p)"
    unfolding parseRecord_ptr_srv [of ptr_record 0 ?p, symmetric] by simp
  have sn: "readName srv_record 0 = Some (Inr ([], 1))"
    by (simp add: readName_eval srv_record_def)
  have si: "readName srv_record (1 + 10 + 6) = Some (Inr (js ''b'', 20))"
    by (simp add: readName_eval srv_record_def)
  have sf: "be16 srv_record 1 = 33" "be16 srv_record (1 + 2) = 1" "be32 srv_record (1 + 4) = 120"
    "be16 srv_record (1 + 8) = 12" "1 + 10 \<le> length srv_record"
    "be16 srv_record (1 + 10) = 10" "be16 srv_record (1 + 10 + 2) = 20"
    "be16 srv_record (1 + 10 + 4) = 8080"
    by (simp_all add: be16_def be32_def srv_record_def)
  have "\<exists>name e nm c.
      readName srv_record 0 = Some (Inr (name, e)) \<and> e + 10 \<le> length srv_record \<and>
      (be16 srv_record e = 12 \<or> be16 srv_record e = 33) \<and>
      readName srv_record (if be16 srv_record e = 12 then e + 10 else e + 10 + 6)
        = Some (Inr (nm, c)) \<and>
      ?s = \<lparr>r_name = name, r_type = be16 srv_record e, r_cls = be16 srv_record (e + 2),
           r_ttl = be32 srv_record (e + 4), r_rdlength = be16 srv_record (e + 8),
           r_rdata = (if be16 srv_record e = 12 then PTR nm
                      else SRV (be16 srv_record (e + 10)) (be16 srv_record (e + 10 + 2))
                               (be16 srv_record (e + 10 + 4)) nm),
           r_offset = e + 10 + be16 srv_record (e + 8)\<rparr>"
    using sn si sf
    by (intro exI [of _ "[]"] exI [of _ 1] exI [of _ "js ''b''"] exI [of _ 20]) simp
  then have s: "parseRecord srv_record 0 = Some (Inr ?s)"
    unfolding parseRecord_ptr_srv [of srv_record 0 ?s, symmetric] by simp
  from p pi s si show ?thesis by simp
qed

subsection \<open>parseRecord: TXT records whose sub-strings do not tile the rdata\<close>

text \<open>
  C7, as the source has it. \<^verbatim>\<open>parseRecord\<close> does not compare the sub-strings of a TXT
  record with \<^verbatim>\<open>rdlength\<close>. Whenever the record's name decodes (ending at \<open>e\<close>), its type
  is 16 and its declared rdata, from \<open>e + 10\<close> to \<open>e + 10 + rdlength\<close>, lies inside the
  buffer, \<^verbatim>\<open>parseRecord\<close> returns a record, whatever the length bytes are. The sub-strings
  read are those of \<open>txt_spans\<close>: the first starts at the start of the rdata and each next
  one where the one before ends, as long as that is before the end of the rdata; the text of
  each is cut at the end of the buffer. The rdata of the record maps every key other than
  \<^verbatim>\<open>__proto__\<close> to what the last of these sub-strings with that key gives. The next offset
  is the end of the last sub-string (\<open>txt_end\<close>), not the end of the rdata: it is the end of
  the rdata or up to 255 bytes past it.
\<close>

theorem parseRecord_txt_without_tiling_check:
  assumes "readName buffer offset = Some (Inr (name, e))"
    and "be16 buffer e = 16"
    and "e + 10 + be16 buffer (e + 8) \<le> length buffer"
  shows "\<exists>txts.
      parseRecord buffer offset =
        Some (Inr \<lparr>r_name = name, r_type = 16, r_cls = be16 buffer (e + 2),
                   r_ttl = be32 buffer (e + 4), r_rdlength = be16 buffer (e + 8),
                   r_rdata = TXT txts,
                   r_offset = txt_end buffer (e + 10 + be16 buffer (e + 8)) (e + 10)\<rparr>) \<and>
      (\<forall>k. k \<noteq> js ''__proto__'' \<longrightarrow>
         txts k = txt_last (txt_strings buffer (e + 10 + be16 buffer (e + 8)) (e + 10)) k) \<and>
      txt_strings buffer (e + 10 + be16 buffer (e + 8)) (e + 10) =
        map (\<lambda>(s, t). toString buffer (s + 1) t)
          (txt_spans buffer (e + 10 + be16 buffer (e + 8)) (e + 10)) \<and>
      e + 10 + be16 buffer (e + 8) \<le> txt_end buffer (e + 10 + be16 buffer (e + 8)) (e + 10) \<and>
      txt_end buffer (e + 10 + be16 buffer (e + 8)) (e + 10) \<le> e + 10 + be16 buffer (e + 8) + 255"
proof -
  let ?rdend = "e + 10 + be16 buffer (e + 8)"
  from assms(3) have e: "e + 10 \<le> length buffer" by simp
  from txt_loop_end [OF assms(3), of "e + 10" Map.empty] obtain txts where
    l: "txt_loop buffer ?rdend (e + 10) Map.empty = Inr (txts, txt_end buffer ?rdend (e + 10))"
    by blast
  from txt_loop_inside [OF assms(3), of "e + 10" Map.empty] l
  have b: "?rdend \<le> txt_end buffer ?rdend (e + 10)"
    "txt_end buffer ?rdend (e + 10) \<le> ?rdend + 255"
    by auto
  have m: "txts k = txt_last (txt_strings buffer ?rdend (e + 10)) k"
    if "k \<noteq> js ''__proto__''" for k
    using txt_loop_map [OF l that] by (simp split: option.splits)
  have p: "parseRecord buffer offset =
        Some (Inr \<lparr>r_name = name, r_type = 16, r_cls = be16 buffer (e + 2),
                   r_ttl = be32 buffer (e + 4), r_rdlength = be16 buffer (e + 8),
                   r_rdata = TXT txts, r_offset = txt_end buffer ?rdend (e + 10)\<rparr>)"
    unfolding parseRecord_fields [OF assms(1) e] using assms(2) l by (simp add: Let_def)
  from p m b txt_strings_spans [of buffer ?rdend "e + 10"] show ?thesis
    by (intro exI [of _ txts]) simp
qed

text \<open>
  An rdata of 3 bytes, \<open>01 61 04\<close>, from offset 11 to offset 14: the first sub-string, \<open>a\<close>,
  lies from 11 to 13; the second starts on the last byte of the rdata, declares 4 bytes and so
  ends at 18, past the rdata and past the 16 bytes of the buffer; its text is \<open>bc\<close>. The
  record is returned, with both keys, and the next offset is 18, not \<open>11 + 3\<close>.
\<close>

theorem parseRecord_txt_without_tiling_check_witness:
  "parseRecord txt_record_straddling 0 =
     Some (Inr \<lparr>r_name = [], r_type = 16, r_cls = 1, r_ttl = 120, r_rdlength = 3,
                r_rdata = TXT [js ''a'' \<mapsto> TxtTrue, js ''bc'' \<mapsto> TxtTrue], r_offset = 18\<rparr>)
   \<and> txt_spans txt_record_straddling (1 + 10 + 3) (1 + 10) = [(11, 13), (13, 18)]
   \<and> txt_strings txt_record_straddling (1 + 10 + 3) (1 + 10) = [js ''a'', js ''bc'']
   \<and> txt_end txt_record_straddling (1 + 10 + 3) (1 + 10) = 18
   \<and> length txt_record_straddling = 16"
proof -
  have h1: "readName txt_record_straddling 0 = Some (Inr ([], 1))"
    by (simp add: readName_eval txt_record_straddling_def)
  have h2: "be16 txt_record_straddling 1 = 16"
    by (simp add: be16_def txt_record_straddling_def)
  have f: "be16 txt_record_straddling (1 + 8) = 3" "be16 txt_record_straddling (1 + 2) = 1"
    "be32 txt_record_straddling (1 + 4) = 120"
    by (simp_all add: be16_def be32_def txt_record_straddling_def)
  have len: "length txt_record_straddling = 16"
    by (simp add: txt_record_straddling_def)
  have h3: "1 + 10 + be16 txt_record_straddling (1 + 8) \<le> length txt_record_straddling"
    unfolding f len by simp
  have sp: "txt_spans txt_record_straddling (1 + 10 + 3) (1 + 10) = [(11, 13), (13, 18)]"
    by (simp add: txt_spans.simps txt_record_straddling_def)
  have te: "txt_end txt_record_straddling (1 + 10 + 3) (1 + 10) = 18"
    unfolding txt_end_def sp by simp
  from parseRecord_txt_without_tiling_check [OF h1 h2 h3] obtain txts where
    p: "parseRecord txt_record_straddling 0 =
        Some (Inr \<lparr>r_name = [], r_type = 16, r_cls = 1, r_ttl = 120, r_rdlength = 3,
                   r_rdata = TXT txts, r_offset = 18\<rparr>)"
    and m: "\<And>k. k \<noteq> js ''__proto__'' \<Longrightarrow>
        txts k = txt_last (txt_strings txt_record_straddling (1 + 10 + 3) (1 + 10)) k"
    and st: "txt_strings txt_record_straddling (1 + 10 + 3) (1 + 10) =
        map (\<lambda>(s, t). toString txt_record_straddling (s + 1) t)
          (txt_spans txt_record_straddling (1 + 10 + 3) (1 + 10))"
    unfolding f te by auto
  have ss: "txt_strings txt_record_straddling (1 + 10 + 3) (1 + 10) = [js ''a'', js ''bc'']"
    unfolding st sp by (simp add: buffer_ops string_ops txt_record_straddling_def)
  have q: "parseRecord txt_record_straddling 0 =
     Some (Inr \<lparr>r_name = [], r_type = 16, r_cls = 1, r_ttl = 120, r_rdlength = 3,
                r_rdata = TXT [js ''a'' \<mapsto> TxtTrue, js ''bc'' \<mapsto> TxtTrue], r_offset = 18\<rparr>)"
    by (simp add: parseRecord_eval txt_record_straddling_def)
  from p q have "txts = [js ''a'' \<mapsto> TxtTrue, js ''bc'' \<mapsto> TxtTrue]"
    by simp
  with p sp ss te len show ?thesis by simp
qed

text \<open>
  C7, as the claim has it: an rdata of 2 bytes whose one sub-string declares 5 bytes does not
  make \<^verbatim>\<open>parseRecord\<close> fail; the sub-string is read past the end of the rdata and the
  returned offset is 17, not \<open>11 + 2\<close>.
\<close>

theorem parseRecord_txt_overshoot_counterexample:
  "parseRecord txt_record_overshoot 0 =
   Some (Inr \<lparr>r_name = [], r_type = 16, r_cls = 1, r_ttl = 120, r_rdlength = 2,
              r_rdata = TXT [js ''abcde'' \<mapsto> TxtTrue], r_offset = 17\<rparr>)"
  by (simp add: parseRecord_eval txt_record_overshoot_def)

subsection \<open>parseRecord: the mapping of a TXT record\<close>

text \<open>
  C8, as the source has it. For a TXT record that \<^verbatim>\<open>parseRecord\<close> returns, the rdata maps
  every key other than \<^verbatim>\<open>__proto__\<close> to what the last sub-string with that key gives: the
  text after its first \<open>=\<close>, or \<^verbatim>\<open>true\<close> when it has no \<open>=\<close>; a key that no sub-string has
  is absent. And the rdata \<open>07 76 65 72 3d 31 2e 30 04 66 6c 61 67\<close>, the sub-strings
  \<open>ver=1.0\<close> and \<open>flag\<close>, decodes to the mapping of \<open>ver\<close> to \<open>1.0\<close> and of \<open>flag\<close> to
  \<^verbatim>\<open>true\<close>.
\<close>

theorem parseRecord_txt_mapping:
  "(parseRecord buffer offset = Some (Inr r) \<and> r_type r = 16 \<and>
    readName buffer offset = Some (Inr (name, e)) \<longrightarrow>
    (\<exists>txts. r_rdata r = TXT txts \<and>
       (\<forall>k. k \<noteq> js ''__proto__'' \<longrightarrow>
          txts k = txt_last (txt_strings buffer (e + 10 + r_rdlength r) (e + 10)) k)))
   \<and> parseRecord txt_record_ver_flag 0 =
     Some (Inr \<lparr>r_name = [], r_type = 16, r_cls = 1, r_ttl = 120, r_rdlength = 13,
                r_rdata = TXT [js ''ver'' \<mapsto> TxtStr (js ''1.0''), js ''flag'' \<mapsto> TxtTrue],
                r_offset = 24\<rparr>)"
proof
  show "parseRecord buffer offset = Some (Inr r) \<and> r_type r = 16 \<and>
    readName buffer offset = Some (Inr (name, e)) \<longrightarrow>
    (\<exists>txts. r_rdata r = TXT txts \<and>
       (\<forall>k. k \<noteq> js ''__proto__'' \<longrightarrow>
          txts k = txt_last (txt_strings buffer (e + 10 + r_rdlength r) (e + 10)) k))"
    using parseRecord_txt_last [of buffer offset r name e] by blast
  show "parseRecord txt_record_ver_flag 0 =
     Some (Inr \<lparr>r_name = [], r_type = 16, r_cls = 1, r_ttl = 120, r_rdlength = 13,
                r_rdata = TXT [js ''ver'' \<mapsto> TxtStr (js ''1.0''), js ''flag'' \<mapsto> TxtTrue],
                r_offset = 24\<rparr>)"
    by (simp add: parseRecord_eval txt_record_ver_flag_def)
qed

text \<open>The sub-strings \<open>k=1\<close> and \<open>k=2\<close>: the key \<open>k\<close> has the value of the last one.\<close>

theorem parseRecord_txt_mapping_witness:
  "parseRecord txt_record_duplicate 0 =
     Some (Inr \<lparr>r_name = [], r_type = 16, r_cls = 1, r_ttl = 120, r_rdlength = 8,
                r_rdata = TXT [js ''k'' \<mapsto> TxtStr (js ''2'')], r_offset = 19\<rparr>)
   \<and> readName txt_record_duplicate 0 = Some (Inr ([], 1))
   \<and> txt_strings txt_record_duplicate (1 + 10 + 8) (1 + 10) = [js ''k=1'', js ''k=2'']
   \<and> txt_last (txt_strings txt_record_duplicate (1 + 10 + 8) (1 + 10)) (js ''k'')
       = [js ''k'' \<mapsto> TxtStr (js ''2'')] (js ''k'')"
proof -
  let ?r = "\<lparr>r_name = [], r_type = 16, r_cls = 1, r_ttl = 120, r_rdlength = 8,
             r_rdata = TXT [js ''k'' \<mapsto> TxtStr (js ''2'')], r_offset = 19\<rparr>"
  have h: "parseRecord txt_record_duplicate 0 = Some (Inr ?r)"
    by (simp add: parseRecord_eval txt_record_duplicate_def)
  have n: "readName txt_record_duplicate 0 = Some (Inr ([], 1))"
    by (simp add: readName_eval txt_record_duplicate_def)
  have s: "txt_strings txt_record_duplicate (1 + 10 + 8) (1 + 10) = [js ''k=1'', js ''k=2'']"
    by (simp add: txt_strings.simps buffer_ops string_ops txt_record_duplicate_def)
  have p: "js ''k'' \<noteq> js ''__proto__''"
    by (simp add: js_def)
  from parseRecord_txt_mapping [of txt_record_duplicate 0 ?r "[]" 1] h n
  have "\<exists>txts. r_rdata ?r = TXT txts \<and>
        (\<forall>k. k \<noteq> js ''__proto__'' \<longrightarrow>
           txts k = txt_last (txt_strings txt_record_duplicate (1 + 10 + r_rdlength ?r) (1 + 10)) k)"
    by simp
  then obtain txts where a: "r_rdata ?r = TXT txts"
    and b: "\<And>k. k \<noteq> js ''__proto__'' \<Longrightarrow>
       txts k = txt_last (txt_strings txt_record_duplicate (1 + 10 + 8) (1 + 10)) k"
    by auto
  from a have "txts = [js ''k'' \<mapsto> TxtStr (js ''2'')]"
    by simp
  with b [OF p] have "[js ''k'' \<mapsto> TxtStr (js ''2'')] (js ''k'')
      = txt_last (txt_strings txt_record_duplicate (1 + 10 + 8) (1 + 10)) (js ''k'')"
    by simp
  with h n s show ?thesis by simp
qed

text \<open>
  C8, as the claim has it: with the length byte \<open>06\<close> that the claim gives, the first
  sub-string is \<open>ver=1.\<close>; the next length byte is \<open>30\<close>, and the second sub-string is the
  rest of the buffer, \<open>04 66 6c 61 67\<close>. The key \<open>ver\<close> has the value \<open>1.\<close>, and there is no
  key \<open>flag\<close>.
\<close>

theorem parseRecord_txt_example_counterexample:
  "parseRecord txt_record_06 0 =
   Some (Inr \<lparr>r_name = [], r_type = 16, r_cls = 1, r_ttl = 120, r_rdlength = 13,
              r_rdata = TXT [js ''ver'' \<mapsto> TxtStr (js ''1.''),
                             [0x04, 0x66, 0x6c, 0x61, 0x67] \<mapsto> TxtTrue],
              r_offset = 67\<rparr>)"
  by (simp add: parseRecord_eval txt_record_06_def)

text \<open>
  The key \<^verbatim>\<open>__proto__\<close>: the sub-string \<open>__proto__=x\<close> leaves the object without
  properties.
\<close>

lemma parseRecord_txt_proto:
  "parseRecord txt_record_proto 0 =
   Some (Inr \<lparr>r_name = [], r_type = 16, r_cls = 1, r_ttl = 120, r_rdlength = 12,
              r_rdata = TXT Map.empty, r_offset = 23\<rparr>)"
  by (simp add: parseRecord_eval txt_record_proto_def)

subsection \<open>buildQuery and readName: the question of a query\<close>

lemma split_from_not_Nil: "split_from sep part s \<noteq> []"
  by (induction s arbitrary: part) auto

lemma join_str_Cons: "xs \<noteq> [] \<Longrightarrow> join_str sep (p # xs) = p @ sep # join_str sep xs"
  by (cases xs) auto

lemma join_split_from: "join_str sep (split_from sep part s) = part @ s"
  by (induction s arbitrary: part) (auto simp: join_str_Cons split_from_not_Nil)

lemma join_split_str: "join_str sep (split_str sep s) = s"
  by (simp add: split_str_def join_split_from)

lemma set_split_from:
  "p \<in> set (split_from sep part s) \<Longrightarrow> set p \<subseteq> set part \<union> set s"
proof (induction s arbitrary: part)
  case Nil
  then show ?case by simp
next
  case (Cons c cs)
  show ?case
  proof (cases "c = sep")
    case True
    with Cons.prems have "p = part \<or> p \<in> set (split_from sep [] cs)" by simp
    then show ?thesis using Cons.IH [of "[]"] by auto
  next
    case False
    with Cons.prems have "p \<in> set (split_from sep (part @ [c]) cs)" by simp
    from Cons.IH [OF this] show ?thesis by auto
  qed
qed

lemma split_from_ascii:
  "\<forall>c\<in>set part \<union> set s. P c \<Longrightarrow> p \<in> set (split_from sep part s) \<Longrightarrow> \<forall>c\<in>set p. P c"
  using set_split_from [of p sep part s] by auto

lemma utf8_encode_ascii:
  "\<forall>c\<in>set s. unat c < 128 \<Longrightarrow> utf8_encode s = map ucast s"
  by (induction s rule: utf8_encode.induct)
     (auto simp: utf8_of_code_point_def is_high_surrogate_def is_low_surrogate_def)

lemma unat_ucast_byte: "unat c < 256 \<Longrightarrow> unat (ucast (c :: 16 word) :: byte) = unat c"
  by (simp add: unsigned_ucast_eq take_bit_nat_eq_self_iff)

lemma utf8_dec_ascii:
  "\<forall>c\<in>set s. unat c < 128 \<Longrightarrow>
   utf8_dec 0 0 0x80 0xBF (map ucast s) = map unat (s :: jsstring)"
  by (induction s) (auto simp: unat_ucast_byte Let_def)

lemma utf8_decode_ascii:
  "\<forall>c\<in>set s. unat c < 128 \<Longrightarrow> utf8_decode (map ucast s) = s"
proof -
  assume a: "\<forall>c\<in>set s. unat c < 128"
  have "concat (map utf16_of_code_point (map unat s)) = s" using a
    by (induction s) (auto simp: utf16_of_code_point_def)
  then show ?thesis by (simp add: utf8_decode_def utf8_dec_ascii [OF a])
qed

lemma qname_loop_labels:
  "\<forall>p\<in>set parts. p \<noteq> [] \<and> length p < 256 \<and> (\<forall>c\<in>set p. unat c < 128) \<Longrightarrow>
   qname_loop parts arr = Inr (arr @ concat (map (\<lambda>p. [[of_nat (length p)], map ucast p]) parts))"
  by (induction parts arbitrary: arr)
     (auto simp: bindE_def writeUInt8_def alloc_def utf8_encode_ascii)

lemma concat_qname: "concat (concat (map (\<lambda>p. [[of_nat (length p)], map ucast p]) parts))
   = concat (map label_bytes parts)"
  by (induction parts) (auto simp: label_bytes_def)

lemma readName_loop_labels:
  assumes "\<forall>p\<in>set parts. p \<noteq> [] \<and> length p < 192 \<and> (\<forall>c\<in>set p. unat c < 128)"
  shows "readName_loop (pre @ concat (map label_bytes parts) @ 0 # post) labels jumped orig (length pre)
    = Some (Inr (labels @ parts, jumped, orig, length pre + length (concat (map label_bytes parts)) + 1))"
  using assms
proof (induction parts arbitrary: pre labels)
  case Nil
  show ?case by (subst readName_loop_unfold) simp
next
  case (Cons p parts)
  let ?buf = "pre @ concat (map label_bytes (p # parts)) @ 0 # post"
  let ?rest = "concat (map label_bytes parts) @ 0 # post"
  from Cons.prems have p: "p \<noteq> []" "length p < 192" "\<forall>c\<in>set p. unat c < 128" by auto
  have buf: "?buf = (pre @ label_bytes p) @ ?rest" by simp
  have b0: "?buf ! length pre = of_nat (length p)"
    by (simp add: label_bytes_def nth_append)
  have u: "unat (?buf ! length pre) = length p"
    unfolding b0 using p(2) by (simp add: unat_byte_of_nat)
  have len: "length (label_bytes p) = length p + 1" by (simp add: label_bytes_def)
  have "slice ?buf (length pre + 1) (length pre + 1 + length p) = map ucast p"
    by (simp add: slice_def label_bytes_def)
  then have ts: "toString ?buf (length pre + 1) (length pre + 1 + length p) = p"
    by (simp add: toString_def utf8_decode_ascii [OF p(3)])
  have ih: "readName_loop ?buf (labels @ [p]) jumped orig (length pre + 1 + length p)
     = Some (Inr ((labels @ [p]) @ parts, jumped, orig,
          length (pre @ label_bytes p) + length (concat (map label_bytes parts)) + 1))"
    using Cons.IH [of "pre @ label_bytes p" "labels @ [p]"] Cons.prems
    unfolding buf by (simp add: len)
  have nz: "?buf ! length pre \<noteq> 0"
    using u p(1) by (metis length_0_conv unat_0_iff)
  show ?case
    apply (subst readName_loop_unfold)
    using nz p(2) ih unfolding u ts
    by (simp add: len)
qed

lemma length_label_bytes_split:
  "length (concat (map label_bytes (split_from sep part s))) = length part + length s + 1"
  by (induction s arbitrary: part) (auto simp: label_bytes_def)

lemma be16_div_mod:
  "n < 65536 \<Longrightarrow>
   readUInt16BE (pre @ [of_nat (n div 256), of_nat (n mod 256)] @ post) (length pre) = Inr n"
proof -
  assume n: "n < 65536"
  then have d: "n div 256 < 256" by simp
  have m: "n mod 256 < 256" by simp
  have "(pre @ [of_nat (n div 256), of_nat (n mod 256)] @ post) ! length pre
      = (of_nat (n div 256) :: byte)"
    by (simp add: nth_append)
  moreover have "(pre @ [of_nat (n div 256), of_nat (n mod 256)] @ post) ! (length pre + 1)
      = (of_nat (n mod 256) :: byte)"
    by (simp add: nth_append)
  ultimately show ?thesis
    by (simp add: readUInt16BE_def unat_byte_of_nat [OF d] unat_byte_of_nat [OF m])
qed

text \<open>
  C9, as the source has it. For a name of ASCII characters whose labels are not empty and at
  most 63 characters long, and a type and a class of 16 bits: the body of \<^verbatim>\<open>buildQuery\<close>
  with this name, type and class returns a query; \<^verbatim>\<open>readName\<close> at offset 12 of the query
  returns the name and the offset just after its terminator, and the two big-endian 16-bit
  fields at that offset are the type and the class.
\<close>

theorem buildQuery_question_roundtrip:
  assumes ascii: "\<forall>c\<in>set name. unat c < 128"
    and labels: "\<forall>p\<in>set (split_str dot name). p \<noteq> [] \<and> length p \<le> 63"
    and qtype: "qtype < 65536" and qclass: "qclass < 65536"
  shows "\<exists>query. buildQueryFor name qtype qclass = Inr query \<and>
      readName query 12 = Some (Inr (name, 12 + length name + 2)) \<and>
      readUInt16BE query (12 + length name + 2) = Inr qtype \<and>
      readUInt16BE query (12 + length name + 2 + 2) = Inr qclass"
proof -
  let ?parts = "split_str dot name"
  let ?hdr = "[0, 0, 0, 0, 0, 1, 0, 0, 0, 0, 0, 0] :: buffer"
  let ?qname = "concat (map label_bytes ?parts)"
  let ?tail = "[of_nat (qtype div 256), of_nat (qtype mod 256),
                of_nat (qclass div 256), of_nat (qclass mod 256)] :: buffer"
  let ?query = "?hdr @ ?qname @ 0 # ?tail"
  have pa: "\<forall>c\<in>set p. unat c < 128" if "p \<in> set ?parts" for p
    using split_from_ascii [of "[]" name "\<lambda>c. unat c < 128" p dot] ascii that
    by (simp add: split_str_def)
  have p1: "\<forall>p\<in>set ?parts. p \<noteq> [] \<and> length p < 256 \<and> (\<forall>c\<in>set p. unat c < 128)"
    using labels pa by fastforce
  have p2: "\<forall>p\<in>set ?parts. p \<noteq> [] \<and> length p < 192 \<and> (\<forall>c\<in>set p. unat c < 128)"
    using labels pa by fastforce
  have q: "buildQueryFor name qtype qclass = Inr ?query"
    by (simp add: buildQueryFor_bytes [OF qtype qclass] qname_loop_labels [OF p1] bindE_def
        concat_qname)
  have len: "length ?qname = length name + 1"
    by (simp add: split_str_def length_label_bytes_split del: length_concat)
  have lh: "length ?hdr = 12" by simp
  have "readName_loop (?hdr @ ?qname @ 0 # ?tail) [] False 12 (length ?hdr) =
      Some (Inr ([] @ ?parts, False, 12, length ?hdr + length ?qname + 1))"
    by (rule readName_loop_labels [OF p2])
  then have "readName_loop ?query [] False 12 12 = Some (Inr (?parts, False, 12, 12 + length name + 2))"
    unfolding lh len by simp
  then have n: "readName ?query 12 = Some (Inr (name, 12 + length name + 2))"
    by (simp add: readName_def join_split_str)
  have l1: "length (?hdr @ ?qname @ [0]) = 12 + length name + 2"
    unfolding length_append len by simp
  have l2: "length (?hdr @ ?qname @ [0, of_nat (qtype div 256), of_nat (qtype mod 256)])
      = 12 + length name + 2 + 2"
    unfolding length_append len by simp
  have t: "readUInt16BE ?query (12 + length name + 2) = Inr qtype"
    using be16_div_mod [OF qtype, of "?hdr @ ?qname @ [0]"
        "[of_nat (qclass div 256), of_nat (qclass mod 256)]", unfolded l1]
    by simp
  have c: "readUInt16BE ?query (12 + length name + 2 + 2) = Inr qclass"
    using be16_div_mod [OF qclass, of
        "?hdr @ ?qname @ [0, of_nat (qtype div 256), of_nat (qtype mod 256)]" "[]", unfolded l2]
    by simp
  from q n t c show ?thesis by blast
qed

text \<open>The name \<open>_http._tcp.local\<close>, 16 characters, with type 33 and class 1.\<close>

theorem buildQuery_question_roundtrip_witness:
  "\<exists>query. buildQueryFor (js ''_http._tcp.local'') 33 1 = Inr query \<and>
      readName query 12 = Some (Inr (js ''_http._tcp.local'', 12 + 16 + 2)) \<and>
      readUInt16BE query (12 + 16 + 2) = Inr 33 \<and>
      readUInt16BE query (12 + 16 + 2 + 2) = Inr 1"
proof -
  have a: "\<forall>c\<in>set (js ''_http._tcp.local''). unat c < 128"
    by (simp add: js_def)
  have l: "\<forall>p\<in>set (split_str dot (js ''_http._tcp.local'')). p \<noteq> [] \<and> length p \<le> 63"
    by (simp add: js_def split_str_def dot_def)
  have n: "length (js ''_http._tcp.local'') = 16"
    by (simp add: js_def)
  from buildQuery_question_roundtrip [OF a l, of 33 1] show ?thesis
    unfolding n by simp
qed

text \<open>
  C9, as the claim has it. The name of the one label \<open>U+00E9\<close> is a non-empty label of two
  bytes, \<open>C3 A9\<close>. \<^verbatim>\<open>buildQuery\<close>'s loop writes \<^verbatim>\<open>part.length\<close>, 1, as the length byte
  and then the two bytes of \<^verbatim>\<open>Buffer.from(part)\<close>; \<^verbatim>\<open>readName\<close> takes \<open>A9\<close> for the
  next length and reads past the end of the query.
\<close>

theorem buildQuery_non_ascii_counterexample:
  "buildQueryFor [0xE9] 12 1 =
     Inr [0, 0, 0, 0, 0, 1, 0, 0, 0, 0, 0, 0, 0x01, 0xC3, 0xA9, 0x00, 0x00, 0x0C, 0x00, 0x01]
   \<and> readName
       [0, 0, 0, 0, 0, 1, 0, 0, 0, 0, 0, 0, 0x01, 0xC3, 0xA9, 0x00, 0x00, 0x0C, 0x00, 0x01] 12
     = Some (Inl RangeError)"
proof
  show "buildQueryFor [0xE9] 12 1 =
     Inr [0, 0, 0, 0, 0, 1, 0, 0, 0, 0, 0, 0, 0x01, 0xC3, 0xA9, 0x00, 0x00, 0x0C, 0x00, 0x01]"
    by (simp add: buildQueryFor_bytes bindE_def buffer_ops string_ops)
  show "readName
       [0, 0, 0, 0, 0, 1, 0, 0, 0, 0, 0, 0, 0x01, 0xC3, 0xA9, 0x00, 0x00, 0x0C, 0x00, 0x01] 12
     = Some (Inl RangeError)"
    by (simp add: readName_eval)
qed

subsection \<open>Decoding a prefix of the buffer\<close>

lemma error_is_RangeError: "(e :: error) = RangeError"
  by (cases e) simp

lemma readUInt8_take:
  "readUInt8 (take b M) off = (if off < b then readUInt8 M off else Inl RangeError)"
  by (simp add: readUInt8_def)

lemma readUInt16BE_take:
  "readUInt16BE (take b M) off = (if off + 2 \<le> b then readUInt16BE M off else Inl RangeError)"
  by (auto simp: readUInt16BE_def)

lemma readUInt32BE_take:
  "readUInt32BE (take b M) off = (if off + 4 \<le> b then readUInt32BE M off else Inl RangeError)"
  by (auto simp: readUInt32BE_def)

lemma be16_take: "off + 2 \<le> b \<Longrightarrow> be16 (take b M) off = be16 M off"
  by (simp add: be16_def)

lemma be32_take: "off + 4 \<le> b \<Longrightarrow> be32 (take b M) off = be32 M off"
  by (simp add: be32_def)

lemma toString_take:
  "stop \<le> b \<Longrightarrow> toString (take b M) start stop = toString M start stop"
  by (simp add: toString_def slice_def min_def)

lemma readName_loop_Inr_inside:
  "readName_loop buffer labels jumped originalOffset offset = Some (Inr res) \<Longrightarrow>
   offset < length buffer"
  by (subst (asm) readName_loop_unfold) (simp split: if_splits)

lemma pointer_at_take:
  "pointer_at (take b M) offset target \<Longrightarrow> pointer_at M offset target"
  by (auto simp: pointer_at_def)

text \<open>A name decoded from a prefix of the buffer is decoded from the buffer, with the same result.\<close>

lemma readName_loop_take_Inr:
  assumes "readName_loop (take b M) labels jumped originalOffset offset = Some y"
  shows "y = Inr res \<longrightarrow> readName_loop M labels jumped originalOffset offset = Some (Inr res)"
  using assms
proof (induction rule: readName_loop_induct)
  case (outside labels jumped originalOffset offset)
  then show ?case by simp
next
  case (zero labels jumped originalOffset offset)
  then show ?case by (subst readName_loop_unfold) auto
next
  case (cut labels jumped originalOffset offset)
  then show ?case by simp
next
  case (pointer labels jumped originalOffset offset target y)
  from pointer.hyps(1) have pa: "pointer_at M offset target" by (rule pointer_at_take)
  show ?case
  proof
    assume "y = Inr res"
    with pointer.IH have "readName_loop M labels True
        (if jumped then originalOffset else offset + 2) target = Some (Inr res)" by simp
    with pa show "readName_loop M labels jumped originalOffset offset = Some (Inr res)"
      by (subst readName_loop_unfold) (auto simp: pointer_at_def unat_0_iff)
  qed
next
  case (label labels jumped originalOffset offset len y)
  show ?case
  proof
    assume y: "y = Inr res"
    from label.hyps(5) [unfolded y] have "offset + 1 + len < length (take b M)"
      by (rule readName_loop_Inr_inside)
    then have le: "offset + 1 + len \<le> b" by simp
    from label.IH y have "readName_loop M
        (labels @ [toString (take b M) (offset + 1) (offset + 1 + len)])
        jumped originalOffset (offset + 1 + len) = Some (Inr res)" by simp
    then have r: "readName_loop M (labels @ [toString M (offset + 1) (offset + 1 + len)])
        jumped originalOffset (offset + 1 + len) = Some (Inr res)"
      unfolding toString_take [OF le] .
    from label.hyps(1,2) have len: "len = unat (M ! offset)" and off: "offset < length M"
      by auto
    show "readName_loop M labels jumped originalOffset offset = Some (Inr res)"
      using r off label.hyps(3,4) unfolding len
      by (subst readName_loop_unfold) (auto simp: unat_0_iff)
  qed
qed

text \<open>A name whose decoding returns on the buffer returns on every prefix of the buffer.\<close>

lemma readName_loop_outside:
  "length buffer \<le> offset \<Longrightarrow>
   readName_loop buffer labels jumped originalOffset offset = Some (Inl RangeError)"
  by (subst readName_loop_unfold) simp

lemma readName_loop_cut:
  "offset < length buffer \<Longrightarrow> 192 \<le> unat (buffer ! offset) \<Longrightarrow>
   length buffer \<le> offset + 1 \<Longrightarrow>
   readName_loop buffer labels jumped originalOffset offset = Some (Inl RangeError)"
  by (subst readName_loop_unfold) (auto simp: unat_0_iff)

lemma readName_loop_zero:
  "offset < length buffer \<Longrightarrow> buffer ! offset = 0 \<Longrightarrow>
   readName_loop buffer labels jumped originalOffset offset =
     Some (Inr (labels, jumped, originalOffset, offset + 1))"
  by (subst readName_loop_unfold) simp

lemma readName_loop_pointer:
  "pointer_at buffer offset target \<Longrightarrow>
   readName_loop buffer labels jumped originalOffset offset =
     readName_loop buffer labels True (if jumped then originalOffset else offset + 2) target"
  by (subst readName_loop_unfold) (auto simp: pointer_at_def unat_0_iff)

lemma readName_loop_label:
  "offset < length buffer \<Longrightarrow> 0 < unat (buffer ! offset) \<Longrightarrow>
   unat (buffer ! offset) < 192 \<Longrightarrow>
   readName_loop buffer labels jumped originalOffset offset =
     readName_loop buffer
       (labels @ [toString buffer (offset + 1) (offset + 1 + unat (buffer ! offset))])
       jumped originalOffset (offset + 1 + unat (buffer ! offset))"
  by (subst readName_loop_unfold) (auto simp: unat_0_iff)

lemma readName_loop_take_returns:
  assumes "readName_loop M labels jumped originalOffset offset = Some y"
  shows "\<exists>y'. readName_loop (take b M) labels' jumped' originalOffset' offset = Some y'"
  using assms
proof (induction arbitrary: labels' jumped' originalOffset' rule: readName_loop_induct)
  case (outside labels jumped originalOffset offset)
  then have "length (take b M) \<le> offset" by simp
  then show ?case by (simp only: readName_loop_outside) simp
next
  case (zero labels jumped originalOffset offset)
  show ?case
  proof (cases "offset < b")
    case True
    with zero have "offset < length (take b M)" "take b M ! offset = 0" by simp_all
    then show ?thesis by (simp only: readName_loop_zero) simp
  next
    case False
    then have "length (take b M) \<le> offset" by simp
    then show ?thesis by (simp only: readName_loop_outside) simp
  qed
next
  case (cut labels jumped originalOffset offset)
  show ?case
  proof (cases "offset < b")
    case True
    with cut have "offset < length (take b M)" "192 \<le> unat (take b M ! offset)"
      "length (take b M) \<le> offset + 1" by simp_all
    then show ?thesis by (simp only: readName_loop_cut) simp
  next
    case False
    then have "length (take b M) \<le> offset" by simp
    then show ?thesis by (simp only: readName_loop_outside) simp
  qed
next
  case (pointer labels jumped originalOffset offset target y)
  show ?case
  proof (cases "offset + 1 < b")
    case True
    with pointer.hyps(1) have "pointer_at (take b M) offset target"
      by (simp add: pointer_at_def)
    then show ?thesis
      using pointer.IH [of labels' True "if jumped' then originalOffset' else offset + 2"]
      by (simp only: readName_loop_pointer)
  next
    case False
    show ?thesis
    proof (cases "offset < b")
      case True
      with False pointer.hyps(1) have "offset < length (take b M)"
        "192 \<le> unat (take b M ! offset)" "length (take b M) \<le> offset + 1"
        by (simp_all add: pointer_at_def)
      then show ?thesis by (simp only: readName_loop_cut) simp
    next
      case False
      then have "length (take b M) \<le> offset" by simp
      then show ?thesis by (simp only: readName_loop_outside) simp
    qed
  qed
next
  case (label labels jumped originalOffset offset len y)
  show ?case
  proof (cases "offset < b")
    case True
    with label.hyps(1-4) have len: "len = unat (take b M ! offset)"
      and i: "offset < length (take b M)" "0 < unat (take b M ! offset)"
        "unat (take b M ! offset) < 192" by simp_all
    from label.IH [of "labels' @ [toString (take b M) (offset + 1) (offset + 1 + len)]"
        jumped' originalOffset']
    show ?thesis
      unfolding len by (simp only: readName_loop_label [OF i])
  next
    case False
    then have "length (take b M) \<le> offset" by simp
    then show ?thesis by (simp only: readName_loop_outside) simp
  qed
qed

lemma readName_Some:
  "readName buffer offset = Some y \<longleftrightarrow>
   (\<exists>yl. readName_loop buffer [] False offset offset = Some yl \<and>
      y = (case yl of Inl e \<Rightarrow> Inl e
           | Inr (labels, jumped, originalOffset, offset') \<Rightarrow>
               Inr (join_str dot labels, if jumped then originalOffset else offset')))"
  by (auto simp: readName_def bindC_def split: option.splits sum.splits)

lemma readName_take:
  assumes "readName M offset = Some (Inr res)"
  shows "readName (take b M) offset = Some (Inl RangeError) \<or>
         readName (take b M) offset = Some (Inr res)"
proof -
  from assms obtain yl where yl: "readName_loop M [] False offset offset = Some yl"
    unfolding readName_Some by blast
  from readName_loop_take_returns [OF yl, of b "[]" False offset]
  obtain y' where y': "readName_loop (take b M) [] False offset offset = Some y'" by blast
  show ?thesis
  proof (cases y')
    case (Inl e)
    with y' show ?thesis by (simp add: readName_def error_is_RangeError [of e])
  next
    case (Inr r)
    from readName_loop_take_Inr [OF y', of r] Inr
    have "readName_loop M [] False offset offset = Some (Inr r)" by simp
    with assms have "readName (take b M) offset = Some (Inr res)"
      using y' Inr by (simp add: readName_def)
    then show ?thesis by simp
  qed
qed

lemma name_walk_inside:
  "name_walk buffer offset ps e \<Longrightarrow> e \<le> length buffer \<and> (\<forall>p\<in>set ps. p + 2 \<le> length buffer)"
  by (induction rule: name_walk.induct) (auto simp: pointer_at_def)

lemma readName_readBytes_inside:
  assumes "readName buffer offset = Some (Inr (name, readBytes))"
  shows "readBytes \<le> length buffer"
proof -
  from assms obtain labels jumped originalOffset offset' where
    run: "readName_loop buffer [] False offset offset =
            Some (Inr (labels, jumped, originalOffset, offset'))"
    and rb: "readBytes = (if jumped then originalOffset else offset')"
    unfolding readName_Inr by blast
  from readName_loop_walk [OF run, of labels jumped originalOffset offset']
  obtain ps where ps: "name_walk buffer offset ps offset'" and j: "jumped = (ps \<noteq> [])"
    and o: "originalOffset = (case ps of [] \<Rightarrow> offset | p # _ \<Rightarrow> p + 2)"
    by auto
  from name_walk_inside [OF ps] j o rb show ?thesis
    by (cases ps) auto
qed

lemma txt_loop_take:
  assumes "txt_loop M rdend offset txts = Inr (txts', offset')"
  shows "txt_loop (take b M) rdend offset txts2 = Inl RangeError \<or>
         (\<exists>t. txt_loop (take b M) rdend offset txts2 = Inr (t, offset'))"
  using assms
proof (induction M rdend offset txts arbitrary: txts2 rule: txt_loop.induct)
  case (1 buffer rdend offset txts)
  show ?case
  proof (cases "offset < rdend")
    case False
    with "1.prems" show ?thesis by (simp add: txt_loop.simps)
  next
    case True
    from "1.prems" True have inside: "offset < length buffer"
      by (subst (asm) txt_loop.simps) (simp add: readUInt8_def split: if_splits)
    then have r: "readUInt8 buffer offset = Inr (unat (buffer ! offset))"
      by (simp add: readUInt8_def)
    let ?n = "offset + 1 + unat (buffer ! offset)"
    from "1.prems" True r
    have l: "txt_loop buffer rdend ?n (txt_store txts (toString buffer (offset + 1) ?n))
       = Inr (txts', offset')"
      by (subst (asm) txt_loop.simps) simp
    show ?thesis
    proof (cases "offset < b")
      case False
      with True show ?thesis
        by (subst txt_loop.simps) (simp add: readUInt8_def)
    next
      case b: True
      have step: "txt_loop (take b buffer) rdend offset txts2 =
          txt_loop (take b buffer) rdend ?n
            (txt_store txts2 (toString (take b buffer) (offset + 1) ?n))"
        using True b inside by (subst txt_loop.simps) (simp add: readUInt8_def)
      from "1.IH" [OF True r l, of "txt_store txts2 (toString (take b buffer) (offset + 1) ?n)"]
      show ?thesis unfolding step .
    qed
  qed
qed

lemma a_loop_take:
  assumes "a_loop M offset rdlength i ipBytes = Inr ip"
  shows "a_loop (take b M) offset rdlength i ipBytes = Inl RangeError \<or>
         (a_loop (take b M) offset rdlength i ipBytes = Inr ip \<and>
          (i < rdlength \<longrightarrow> offset + rdlength \<le> length (take b M)))"
  using assms
proof (induction M offset rdlength i ipBytes rule: a_loop.induct)
  case (1 buffer offset rdlength i ipBytes)
  show ?case
  proof (cases "i < rdlength")
    case False
    with "1.prems" show ?thesis by (simp add: a_loop.simps)
  next
    case True
    from "1.prems" True have inside: "offset + i < length buffer"
      by (subst (asm) a_loop.simps) (simp add: readUInt8_def split: if_splits)
    then have r: "readUInt8 buffer (offset + i) = Inr (unat (buffer ! (offset + i)))"
      by (simp add: readUInt8_def)
    from "1.prems" True r
    have l: "a_loop buffer offset rdlength (i + 1) (ipBytes @ [unat (buffer ! (offset + i))])
       = Inr ip"
      by (subst (asm) a_loop.simps) simp
    show ?thesis
    proof (cases "offset + i < b")
      case False
      with True show ?thesis
        by (subst a_loop.simps) (simp add: readUInt8_def)
    next
      case b: True
      from "1.IH" [OF True r l]
      have ih: "a_loop (take b buffer) offset rdlength (i + 1)
                  (ipBytes @ [unat (buffer ! (offset + i))]) = Inl RangeError \<or>
         (a_loop (take b buffer) offset rdlength (i + 1)
                  (ipBytes @ [unat (buffer ! (offset + i))]) = Inr ip \<and>
          (i + 1 < rdlength \<longrightarrow> offset + rdlength \<le> length (take b buffer)))" .
      have step: "a_loop (take b buffer) offset rdlength i ipBytes =
          a_loop (take b buffer) offset rdlength (i + 1)
                  (ipBytes @ [unat (buffer ! (offset + i))])"
        using True b inside by (subst a_loop.simps) (simp add: readUInt8_def)
      have "offset + rdlength \<le> length (take b buffer)" if "\<not> i + 1 < rdlength"
        using that True b inside by simp
      with ih show ?thesis unfolding step by auto
    qed
  qed
qed

lemma parseRecord_short:
  "readName buffer offset0 = Some (Inr (name, e)) \<Longrightarrow> \<not> e + 10 \<le> length buffer \<Longrightarrow>
   parseRecord buffer offset0 = Some (Inl RangeError)"
  by (simp add: parseRecord_def readUInt16BE_def readUInt32BE_def)

lemma parseRecord_name_error:
  "readName buffer offset0 = Some (Inl e) \<Longrightarrow> parseRecord buffer offset0 = Some (Inl e)"
  by (simp add: parseRecord_def)

lemma parseRecord_take:
  assumes "parseRecord M offset0 = Some (Inr r)"
  shows "parseRecord (take b M) offset0 = Some (Inl RangeError) \<or>
     (\<exists>r'. parseRecord (take b M) offset0 = Some (Inr r') \<and> r_offset r' = r_offset r \<and>
        (record_tight M r \<longrightarrow> r_offset r \<le> length (take b M)))"
  using assms
proof (cases rule: parseRecord_Inr)
  case (1 name e)
  note name = 1(1) and fields = 1(3-7)
  let ?P = "take b M"
  from readName_take [OF name, of b] consider
    (err) "readName ?P offset0 = Some (Inl RangeError)" |
    (ok) "readName ?P offset0 = Some (Inr (name, e))" by blast
  then show ?thesis
  proof cases
    case err
    then show ?thesis by (simp add: parseRecord_name_error)
  next
    case ok
    show ?thesis
    proof (cases "e + 10 \<le> length ?P")
      case False
      with ok show ?thesis by (simp add: parseRecord_short)
    next
      case inside: True
      then have eb: "e + 10 \<le> b" by simp
      have ty: "be16 ?P e = r_type r" and rl: "be16 ?P (e + 8) = r_rdlength r"
        using eb fields by (simp_all add: be16_take)
      note unf = parseRecord_fields [OF ok inside, unfolded ty rl Let_def]
      consider (is_ptr) "r_type r = 12" | (is_srv) "r_type r = 33" | (is_txt) "r_type r = 16"
        | (is_a) "r_type r = 1" | (other) "r_type r \<notin> {12, 33, 16, 1}" by auto
      then show ?thesis
      proof cases
        case is_ptr
        from 1(8) [OF is_ptr] obtain nm c where
          n: "readName M (e + 10) = Some (Inr (nm, c))" and d: "r_rdata r = PTR nm"
          and o: "r_offset r = e + 10 + r_rdlength r" by blast
        from readName_take [OF n, of b] show ?thesis
        proof
          assume "readName ?P (e + 10) = Some (Inl RangeError)"
          then show ?thesis unfolding unf using is_ptr by simp
        next
          assume p: "readName ?P (e + 10) = Some (Inr (nm, c))"
          have "r_offset r \<le> length ?P" if "record_tight M r"
          proof -
            from that d o n have "c = r_offset r" by (simp add: record_tight_def)
            with readName_readBytes_inside [OF p] show ?thesis by simp
          qed
          then show ?thesis unfolding unf using is_ptr p o by simp
        qed
      next
        case is_srv
        from 1(9) [OF is_srv] obtain tgt c where
          n: "readName M (e + 16) = Some (Inr (tgt, c))"
          and d: "r_rdata r = SRV (be16 M (e + 10)) (be16 M (e + 12)) (be16 M (e + 14)) tgt"
          and o: "r_offset r = e + 10 + r_rdlength r" by blast
        show ?thesis
        proof (cases "e + 16 \<le> length ?P")
          case False
          then show ?thesis unfolding unf using is_srv
            by (auto simp: readUInt16BE_def)
        next
          case True
          from readName_take [OF n, of b] show ?thesis
          proof
            assume "readName ?P (e + 16) = Some (Inl RangeError)"
            then show ?thesis unfolding unf using is_srv True
              by (simp add: readUInt16BE_be16 add.commute)
          next
            assume p: "readName ?P (e + 16) = Some (Inr (tgt, c))"
            have "r_offset r \<le> length ?P" if "record_tight M r"
            proof -
              from that d o n have "c = r_offset r"
                by (simp add: record_tight_def add.commute)
              with readName_readBytes_inside [OF p] show ?thesis by simp
            qed
            then show ?thesis unfolding unf using is_srv p o True
              by (simp add: readUInt16BE_be16 add.commute)
          qed
        qed
      next
        case is_txt
        from 1(10) [OF is_txt] obtain txts where
          l: "txt_loop M (e + 10 + r_rdlength r) (e + 10) Map.empty = Inr (txts, r_offset r)"
          and d: "r_rdata r = TXT txts" by blast
        from d have nt: "\<not> record_tight M r" by (simp add: record_tight_def)
        from txt_loop_take [OF l, of b Map.empty] show ?thesis
          unfolding unf using is_txt nt by auto
      next
        case is_a
        from 1(11) [OF is_a] obtain ipBytes where
          l: "a_loop M (e + 10) (r_rdlength r) 0 [] = Inr ipBytes"
          and o: "r_offset r = e + 10 + r_rdlength r" by blast
        from a_loop_take [OF l, of b] show ?thesis
        proof
          assume "a_loop ?P (e + 10) (r_rdlength r) 0 [] = Inl RangeError"
          then show ?thesis unfolding unf using is_a by simp
        next
          assume p: "a_loop ?P (e + 10) (r_rdlength r) 0 [] = Inr ipBytes \<and>
            (0 < r_rdlength r \<longrightarrow> e + 10 + r_rdlength r \<le> length ?P)"
          then have "r_offset r \<le> length ?P"
            using o inside by (cases "r_rdlength r = 0") auto
          then show ?thesis unfolding unf using is_a p o by simp
        qed
      next
        case other
        from 1(12) [OF other] have d: "r_rdata r = Raw (slice M (e + 10) (e + 10 + r_rdlength r))"
          and o: "r_offset r = e + 10 + r_rdlength r" by auto
        from d have nt: "\<not> record_tight M r" by (simp add: record_tight_def)
        show ?thesis unfolding unf using other nt o by auto
      qed
    qed
  qed
qed

lemma skip_questions_take:
  "skip_questions M n offset = Some (Inr offset') \<Longrightarrow>
   skip_questions (take b M) n offset = Some (Inl RangeError) \<or>
   skip_questions (take b M) n offset = Some (Inr offset')"
proof (induction n arbitrary: offset)
  case 0
  then show ?case by simp
next
  case (Suc n)
  from Suc.prems obtain name readBytes where
    n: "readName M offset = Some (Inr (name, readBytes))"
    and r: "skip_questions M n (readBytes + 4) = Some (Inr offset')"
    by (auto simp: bindC_eq_Some_Inr)
  from readName_take [OF n, of b] Suc.IH [OF r] show ?case by auto
qed

lemma parse_records_Nil:
  "parse_records buffer n offset records = Some (Inr []) \<Longrightarrow> n = 0"
proof (induction n arbitrary: offset records)
  case 0
  then show ?case by simp
next
  case (Suc n)
  from Suc.prems obtain r where
    "parse_records buffer n (r_offset r) (records @ [r]) = Some (Inr [])"
    by (auto simp: bindC_eq_Some_Inr)
  then have False
  proof (induction n arbitrary: r records)
    case 0
    then show ?case by simp
  next
    case (Suc n)
    from Suc.prems obtain r' where
      "parse_records buffer n (r_offset r') ((records @ [r]) @ [r']) = Some (Inr [])"
      by (auto simp: bindC_eq_Some_Inr)
    then show ?case using Suc.IH [of r' "records @ [r]"] by simp
  qed
  then show ?case ..
qed

lemma parse_records_take:
  "parse_records M n offset records = Some (Inr rs) \<Longrightarrow>
   parse_records (take b M) n offset records' = Some (Inl RangeError) \<or>
   (\<exists>rs'. parse_records (take b M) n offset records' = Some (Inr rs') \<and>
      (0 < n \<longrightarrow> record_tight M (last rs) \<longrightarrow> r_offset (last rs) \<le> length (take b M)))"
proof (induction n arbitrary: offset records records')
  case 0
  then show ?case by simp
next
  case (Suc n)
  from Suc.prems obtain r where
    p: "parseRecord M offset = Some (Inr r)"
    and rest: "parse_records M n (r_offset r) (records @ [r]) = Some (Inr rs)"
    by (auto simp: bindC_eq_Some_Inr)
  from parseRecord_take [OF p, of b] show ?case
  proof
    assume "parseRecord (take b M) offset = Some (Inl RangeError)"
    then show ?thesis by simp
  next
    assume "\<exists>r'. parseRecord (take b M) offset = Some (Inr r') \<and> r_offset r' = r_offset r \<and>
        (record_tight M r \<longrightarrow> r_offset r \<le> length (take b M))"
    then obtain r' where p': "parseRecord (take b M) offset = Some (Inr r')"
      and o: "r_offset r' = r_offset r"
      and t: "record_tight M r \<longrightarrow> r_offset r \<le> length (take b M)" by blast
    have step: "parse_records (take b M) (Suc n) offset records' =
        parse_records (take b M) n (r_offset r) (records' @ [r'])"
      using p' o by simp
    show ?thesis
    proof (cases n)
      case 0
      with rest have "rs = records @ [r]" by simp
      then show ?thesis unfolding step using t 0 by simp
    next
      case (Suc m)
      with Suc.IH [OF rest, of "records' @ [r']"] show ?thesis unfolding step by simp
    qed
  qed
qed

lemma parseDNSMessage_take:
  assumes "parseDNSMessage M = Some (Inr (header, records))" and "records \<noteq> []"
  shows "parseDNSMessage (take b M) = Some (Inl RangeError) \<or>
     (\<exists>res. parseDNSMessage (take b M) = Some (Inr res) \<and>
        (record_tight M (last records) \<longrightarrow> r_offset (last records) \<le> length (take b M)))"
proof -
  let ?n = "be16 M 6 + be16 M 8 + be16 M 10"
  from assms(1) have len: "12 \<le> length M"
    by (auto simp: parseDNSMessage_def bindC_eq_Some_Inr readUInt16BE_def split: if_splits)
  from assms(1) len obtain offset where
    q: "skip_questions M (be16 M 4) 12 = Some (Inr offset)"
    and r: "parse_records M ?n offset [] = Some (Inr records)"
    by (auto simp: parseDNSMessage_def bindC_eq_Some_Inr readUInt16BE_be16 Let_def)
  from r assms(2) have n: "0 < ?n"
    using parse_records_Nil [of M ?n offset "[]"] by (cases "?n = 0") auto
  show ?thesis
  proof (cases "12 \<le> b")
    case False
    then have "parseDNSMessage (take b M) = Some (Inl RangeError)"
      by (auto simp: parseDNSMessage_def readUInt16BE_def)
    then show ?thesis ..
  next
    case True
    then have hdr: "readUInt16BE (take b M) 0 = Inr (be16 M 0)"
      "readUInt16BE (take b M) 2 = Inr (be16 M 2)"
      "readUInt16BE (take b M) 4 = Inr (be16 M 4)"
      "readUInt16BE (take b M) 6 = Inr (be16 M 6)"
      "readUInt16BE (take b M) 8 = Inr (be16 M 8)"
      "readUInt16BE (take b M) 10 = Inr (be16 M 10)"
      using len by (simp_all add: readUInt16BE_be16 be16_take)
    from skip_questions_take [OF q, of b] show ?thesis
    proof
      assume "skip_questions (take b M) (be16 M 4) 12 = Some (Inl RangeError)"
      then show ?thesis by (simp add: parseDNSMessage_def hdr)
    next
      assume q': "skip_questions (take b M) (be16 M 4) 12 = Some (Inr offset)"
      from parse_records_take [OF r, of b "[]"] show ?thesis
      proof
        assume "parse_records (take b M) ?n offset [] = Some (Inl RangeError)"
        then show ?thesis by (simp add: parseDNSMessage_def hdr q')
      next
        assume "\<exists>rs'. parse_records (take b M) ?n offset [] = Some (Inr rs') \<and>
          (0 < ?n \<longrightarrow> record_tight M (last records) \<longrightarrow>
             r_offset (last records) \<le> length (take b M))"
        then show ?thesis using n by (auto simp: parseDNSMessage_def hdr q')
      qed
    qed
  qed
qed

lemmas parseDNSMessage_eval = parseDNSMessage_def parseRecord_eval decimal.simps

subsection \<open>parseDNSMessage: a truncated message\<close>

text \<open>
  C3, as the source has it. Let \<^verbatim>\<open>parseDNSMessage\<close> decode a message whose last record is
  read to its last byte: an A record, or a PTR or SRV record whose name ends where its rdata
  ends. Then decoding the first \<open>b\<close> bytes of the message, for every \<open>b\<close> before the end
  of that record, throws \<^verbatim>\<open>RangeError\<close>, the one error of the codec.
\<close>

theorem parseDNSMessage_truncated:
  assumes "parseDNSMessage message = Some (Inr (header, records))"
    and "records \<noteq> []" and "record_tight message (last records)"
    and "b < r_offset (last records)"
  shows "parseDNSMessage (take b message) = Some (Inl RangeError)"
proof -
  from parseDNSMessage_take [OF assms(1,2), of b] assms(3)
  have "parseDNSMessage (take b message) = Some (Inl RangeError) \<or>
        r_offset (last records) \<le> length (take b message)" by blast
  moreover have "length (take b message) \<le> b" by simp
  ultimately show ?thesis using assms(4) by linarith
qed

text \<open>The message with one A record, cut one byte before its end.\<close>

theorem parseDNSMessage_truncated_witness:
  "parseDNSMessage a_message =
     Some (Inr (\<lparr>h_id = 0, h_flags = 0x8400, h_qdcount = 0, h_ancount = 1, h_nscount = 0,
                 h_arcount = 0\<rparr>,
       [\<lparr>r_name = js ''a'', r_type = 1, r_cls = 1, r_ttl = 120, r_rdlength = 4,
         r_rdata = A (js ''192.168.1.20''), r_offset = 29\<rparr>]))
   \<and> parseDNSMessage (take 28 a_message) = Some (Inl RangeError)"
proof -
  let ?h = "\<lparr>h_id = 0, h_flags = 0x8400, h_qdcount = 0, h_ancount = 1, h_nscount = 0,
             h_arcount = 0\<rparr>"
  let ?r = "\<lparr>r_name = js ''a'', r_type = 1, r_cls = 1, r_ttl = 120, r_rdlength = 4,
             r_rdata = A (js ''192.168.1.20''), r_offset = 29\<rparr>"
  have h: "parseDNSMessage a_message = Some (Inr (?h, [?r]))"
    by (simp add: parseDNSMessage_eval a_message_def)
  have n: "[?r] \<noteq> []" by simp
  have t: "record_tight a_message (last [?r])" by (simp add: record_tight_def)
  have b: "28 < r_offset (last [?r])" by simp
  from parseDNSMessage_truncated [OF h n t b] h show ?thesis by simp
qed

text \<open>
  C3, as the claim has it. The message with one TXT record is 30 bytes long and decodes; its
  first 29 bytes decode too, to a record whose property is \<open>fla\<close>: \<^verbatim>\<open>toString\<close> ends the
  last sub-string at the end of the buffer, and nothing is read after it.
\<close>

theorem parseDNSMessage_truncated_txt_counterexample:
  "parseDNSMessage txt_message =
     Some (Inr (\<lparr>h_id = 0, h_flags = 0x8400, h_qdcount = 0, h_ancount = 1, h_nscount = 0,
                 h_arcount = 0\<rparr>,
       [\<lparr>r_name = js ''a'', r_type = 16, r_cls = 1, r_ttl = 120, r_rdlength = 5,
         r_rdata = TXT [js ''flag'' \<mapsto> TxtTrue], r_offset = 30\<rparr>]))
   \<and> length txt_message = 30
   \<and> parseDNSMessage (take 29 txt_message) =
     Some (Inr (\<lparr>h_id = 0, h_flags = 0x8400, h_qdcount = 0, h_ancount = 1, h_nscount = 0,
                 h_arcount = 0\<rparr>,
       [\<lparr>r_name = js ''a'', r_type = 16, r_cls = 1, r_ttl = 120, r_rdlength = 5,
         r_rdata = TXT [js ''fla'' \<mapsto> TxtTrue], r_offset = 30\<rparr>]))"
  by (simp add: parseDNSMessage_eval txt_message_def)

end
